theory Spec2Isabelle
  imports Main "HOL-Library.Word" "HOL-Library.AList"
begin

section \<open>The cache handler of \<^verbatim>\<open>src/app/lib/cache-handler.cjs\<close>\<close>

text \<open>
  The handler keeps cache entries in a remote key-value store (Redis, through two
  ioredis connections) and three pieces of process-wide state: the flag
  \<^verbatim>\<open>connected\<close>, the map \<^verbatim>\<open>tagTimestamps\<close> and the map \<^verbatim>\<open>pendingSets\<close>.
  Its five exported operations are embedded below as functions on an explicit state.
  What the platform provides (base64 in \<^verbatim>\<open>Buffer\<close>, \<^verbatim>\<open>JSON\<close>, \<^verbatim>\<open>Number.parseInt\<close>, the
  store's commands) is modelled first, from its documented behaviour.
\<close>

subsection \<open>Bytes and base64 (\<^verbatim>\<open>Buffer.toString("base64")\<close>, \<^verbatim>\<open>Buffer.from(s, "base64")\<close>)\<close>

type_synonym byte = "8 word"

definition b64_alphabet :: string where
  "b64_alphabet = ''ABCDEFGHIJKLMNOPQRSTUVWXYZabcdefghijklmnopqrstuvwxyz0123456789+/''"

definition b64_char :: "nat \<Rightarrow> char" where
  "b64_char i = b64_alphabet ! (i mod 64)"

text \<open>Three bytes become four characters; a last group of one or two bytes is padded.\<close>

fun base64_groups :: "nat list \<Rightarrow> string" where
  "base64_groups (a # b # c # r) =
     (let n = a * 65536 + b * 256 + c
      in [b64_char (n div 262144), b64_char (n div 4096), b64_char (n div 64), b64_char n])
     @ base64_groups r"
| "base64_groups [a, b] =
     (let n = a * 65536 + b * 256
      in [b64_char (n div 262144), b64_char (n div 4096), b64_char (n div 64), CHR ''=''])"
| "base64_groups [a] =
     (let n = a * 65536
      in [b64_char (n div 262144), b64_char (n div 4096), CHR ''='', CHR ''=''])"
| "base64_groups [] = []"

definition toString_base64 :: "byte list \<Rightarrow> string" where
  "toString_base64 data = base64_groups (map unat data)"

text \<open>
  Node's decoder is lenient: it stops at the first \<^verbatim>\<open>=\<close>, skips every character that
  is not in the alphabet, and also reads the URL-safe \<^verbatim>\<open>-\<close> and \<^verbatim>\<open>_\<close>.
\<close>

definition unbase64 :: "char \<Rightarrow> nat option" where
  "unbase64 c =
     (let n = (of_char c :: nat) in
      if 65 \<le> n \<and> n \<le> 90 then Some (n - 65)
      else if 97 \<le> n \<and> n \<le> 122 then Some (n - 71)
      else if 48 \<le> n \<and> n \<le> 57 then Some (n + 4)
      else if n = 43 \<or> n = 45 then Some 62
      else if n = 47 \<or> n = 95 then Some 63
      else None)"

fun decode_groups :: "nat list \<Rightarrow> byte list" where
  "decode_groups (a # b # c # d # r) =
     (let n = a * 262144 + b * 4096 + c * 64 + d
      in [of_nat (n div 65536), of_nat (n div 256), of_nat n]) @ decode_groups r"
| "decode_groups [a, b, c] =
     (let n = a * 262144 + b * 4096 + c * 64
      in [of_nat (n div 65536), of_nat (n div 256)])"
| "decode_groups [a, b] =
     (let n = a * 262144 + b * 4096 in [of_nat (n div 65536)])"
| "decode_groups [a] = []"
| "decode_groups [] = []"

definition from_base64 :: "string \<Rightarrow> byte list" where
  "from_base64 s =
     decode_groups (List.map_filter unbase64 (takeWhile (\<lambda>c. c \<noteq> CHR ''='') s))"

subsection \<open>Numbers as decimal text (\<^verbatim>\<open>Number.prototype.toString\<close>, \<^verbatim>\<open>Number.parseInt\<close>)\<close>

text \<open>
  The numbers of this program are millisecond timestamps and durations in seconds. They
  are modelled as unbounded integers; a number that is not an integer is outside the
  model. \<^verbatim>\<open>NaN\<close> is \<open>None\<close> where a JavaScript number can be \<^verbatim>\<open>NaN\<close>.
\<close>

definition digit_char :: "nat \<Rightarrow> char" where
  "digit_char d = char_of (48 + d mod 10)"

definition digit_val :: "char \<Rightarrow> nat option" where
  "digit_val c =
     (let n = (of_char c :: nat) in if 48 \<le> n \<and> n \<le> 57 then Some (n - 48) else None)"

fun digits :: "nat \<Rightarrow> string" where
  "digits n = (if n < 10 then [digit_char n] else digits (n div 10) @ [digit_char n])"

declare digits.simps [simp del]

definition number_toString :: "int \<Rightarrow> string" where
  "number_toString n = (if n < 0 then CHR ''-'' # digits (nat (- n)) else digits (nat n))"

fun read_digits :: "nat \<Rightarrow> string \<Rightarrow> nat \<times> string" where
  "read_digits acc [] = (acc, [])"
| "read_digits acc (c # cs) =
     (case digit_val c of
        Some d \<Rightarrow> read_digits (acc * 10 + d) cs
      | None \<Rightarrow> (acc, c # cs))"

definition is_space :: "char \<Rightarrow> bool" where
  "is_space c = (c = CHR 0x20 \<or> c = CHR 0x09 \<or> c = CHR 0x0A \<or> c = CHR 0x0B
                 \<or> c = CHR 0x0C \<or> c = CHR 0x0D)"

text \<open>
  \<^verbatim>\<open>Number.parseInt(s, 10)\<close>: leading white space, an optional sign, then the longest
  run of digits; \<^verbatim>\<open>NaN\<close> when there is no digit.
\<close>

definition unsigned_parseInt :: "string \<Rightarrow> int option" where
  "unsigned_parseInt s =
     (case s of
        [] \<Rightarrow> None
      | c # cs \<Rightarrow>
          (case digit_val c of
             None \<Rightarrow> None
           | Some d \<Rightarrow> Some (int (fst (read_digits 0 (c # cs))))))"

definition parseInt :: "string \<Rightarrow> int option" where
  "parseInt s =
     (case dropWhile is_space s of
        [] \<Rightarrow> None
      | c # cs \<Rightarrow>
          if c = CHR ''-'' then map_option uminus (unsigned_parseInt cs)
          else if c = CHR ''+'' then unsigned_parseInt cs
          else unsigned_parseInt (c # cs))"

subsection \<open>JSON (\<^verbatim>\<open>JSON.stringify\<close>, \<^verbatim>\<open>JSON.parse\<close>)\<close>

text \<open>
  A string is a list of bytes (the UTF-8 form of the JavaScript string). Objects keep
  their members in document order; a property read takes the last member of that name,
  as \<^verbatim>\<open>JSON.parse\<close> does for a repeated key.
\<close>

datatype json =
    JNull
  | JBool bool
  | JNum int
  | JStr string
  | JArr "json list"
  | JObj "(string \<times> json) list"

definition hex_char :: "nat \<Rightarrow> char" where
  "hex_char d = ''0123456789abcdef'' ! (d mod 16)"

definition hex_val :: "char \<Rightarrow> nat option" where
  "hex_val c =
     (let n = (of_char c :: nat) in
      if 48 \<le> n \<and> n \<le> 57 then Some (n - 48)
      else if 97 \<le> n \<and> n \<le> 102 then Some (n - 87)
      else if 65 \<le> n \<and> n \<le> 70 then Some (n - 55)
      else None)"

text \<open>
  \<^verbatim>\<open>JSON.stringify\<close> escapes the quote, the backslash and the control characters below
  \<^verbatim>\<open>0x20\<close>; every other byte stands for itself.
\<close>

definition escape_char :: "char \<Rightarrow> string" where
  "escape_char c =
     (if c = CHR 0x22 then [CHR 0x5C, CHR 0x22]
      else if c = CHR 0x5C then [CHR 0x5C, CHR 0x5C]
      else if c = CHR 0x08 then [CHR 0x5C, CHR ''b'']
      else if c = CHR 0x0C then [CHR 0x5C, CHR ''f'']
      else if c = CHR 0x0A then [CHR 0x5C, CHR ''n'']
      else if c = CHR 0x0D then [CHR 0x5C, CHR ''r'']
      else if c = CHR 0x09 then [CHR 0x5C, CHR ''t'']
      else if (of_char c :: nat) < 32 then
        [CHR 0x5C, CHR ''u'', CHR ''0'', CHR ''0'',
         hex_char ((of_char c :: nat) div 16), hex_char (of_char c)]
      else [c])"

definition quote :: "string \<Rightarrow> string" where
  "quote s = CHR 0x22 # concat (map escape_char s) @ [CHR 0x22]"

fun join :: "string \<Rightarrow> string list \<Rightarrow> string" where
  "join sep [] = []"
| "join sep [x] = x"
| "join sep (x # y # ys) = x @ sep @ join sep (y # ys)"

fun JSON_stringify :: "json \<Rightarrow> string" where
  "JSON_stringify JNull = ''null''"
| "JSON_stringify (JBool b) = (if b then ''true'' else ''false'')"
| "JSON_stringify (JNum n) = number_toString n"
| "JSON_stringify (JStr s) = quote s"
| "JSON_stringify (JArr xs) = ''['' @ join '','' (map JSON_stringify xs) @ '']''"
| "JSON_stringify (JObj kvs) =
     ''{'' @ join '','' (map (\<lambda>(k, v). quote k @ '':'' @ JSON_stringify v) kvs) @ ''}''"

text \<open>
  The code point of a \<^verbatim>\<open>\u\<close> escape, as UTF-8 bytes (one to three of them; the pairing
  of surrogates is not modelled).
\<close>

definition utf8 :: "nat \<Rightarrow> string" where
  "utf8 n =
     (if n < 128 then [char_of n]
      else if n < 2048 then [char_of (192 + n div 64), char_of (128 + n mod 64)]
      else [char_of (224 + n div 4096), char_of (128 + n div 64 mod 64),
            char_of (128 + n mod 64)])"

text \<open>The characters of a string literal, after its opening quote.\<close>

fun parse_chars :: "string \<Rightarrow> (string \<times> string) option" where
  "parse_chars [] = None"
| "parse_chars (c # cs) =
     (if c = CHR 0x22 then Some ([], cs)
      else if c = CHR 0x5C then
        (case cs of
           [] \<Rightarrow> None
         | e # r \<Rightarrow>
             if e = CHR ''u'' then
               (case r of
                  h1 # h2 # h3 # h4 # r' \<Rightarrow>
                    (case (hex_val h1, hex_val h2, hex_val h3, hex_val h4) of
                       (Some a, Some b, Some c', Some d) \<Rightarrow>
                         (case parse_chars r' of
                            None \<Rightarrow> None
                          | Some (s, rest) \<Rightarrow>
                              Some (utf8 (a * 4096 + b * 256 + c' * 16 + d) @ s, rest))
                     | _ \<Rightarrow> None)
                | _ \<Rightarrow> None)
             else
               (case (if e = CHR 0x22 then Some (CHR 0x22)
                      else if e = CHR 0x5C then Some (CHR 0x5C)
                      else if e = CHR ''/'' then Some (CHR ''/'')
                      else if e = CHR ''b'' then Some (CHR 0x08)
                      else if e = CHR ''f'' then Some (CHR 0x0C)
                      else if e = CHR ''n'' then Some (CHR 0x0A)
                      else if e = CHR ''r'' then Some (CHR 0x0D)
                      else if e = CHR ''t'' then Some (CHR 0x09)
                      else None) of
                  None \<Rightarrow> None
                | Some x \<Rightarrow>
                    (case parse_chars r of
                       None \<Rightarrow> None
                     | Some (s, rest) \<Rightarrow> Some (x # s, rest))))
      else if (of_char c :: nat) < 32 then None
      else
        (case parse_chars cs of
           None \<Rightarrow> None
         | Some (s, rest) \<Rightarrow> Some (c # s, rest)))"

definition is_ws :: "char \<Rightarrow> bool" where
  "is_ws c = (c = CHR 0x20 \<or> c = CHR 0x09 \<or> c = CHR 0x0A \<or> c = CHR 0x0D)"

definition skip_ws :: "string \<Rightarrow> string" where
  "skip_ws s = dropWhile is_ws s"

fun strip_prefix :: "string \<Rightarrow> string \<Rightarrow> string option" where
  "strip_prefix [] s = Some s"
| "strip_prefix (p # ps) [] = None"
| "strip_prefix (p # ps) (c # cs) = (if p = c then strip_prefix ps cs else None)"

text \<open>
  A number literal: an optional minus, then \<^verbatim>\<open>0\<close> or a run of digits that does not
  start with \<^verbatim>\<open>0\<close>. A fraction or an exponent is refused (integers only, see above).
\<close>

definition number_end :: "string \<Rightarrow> bool" where
  "number_end r =
     (case r of
        [] \<Rightarrow> True
      | c # cs \<Rightarrow> digit_val c = None \<and> c \<noteq> CHR ''.'' \<and> c \<noteq> CHR ''e'' \<and> c \<noteq> CHR ''E'')"

text \<open>
  The text after a value inside the output of \<^verbatim>\<open>JSON.stringify\<close>: nothing, or a comma
  or a closing bracket. (Used to state what the parser does on that output.)
\<close>

definition value_end :: "string \<Rightarrow> bool" where
  "value_end r =
     (case r of
        [] \<Rightarrow> True
      | c # cs \<Rightarrow> c = CHR '','' \<or> c = CHR '']'' \<or> c = CHR ''}'')"

definition parse_nat :: "string \<Rightarrow> (nat \<times> string) option" where
  "parse_nat s =
     (case s of
        [] \<Rightarrow> None
      | c # cs \<Rightarrow>
          (case digit_val c of
             None \<Rightarrow> None
           | Some d \<Rightarrow>
               if d = 0 then (if number_end cs then Some (0, cs) else None)
               else (let (n, r) = read_digits 0 (c # cs)
                     in if number_end r then Some (n, r) else None)))"

definition parse_number :: "string \<Rightarrow> (json \<times> string) option" where
  "parse_number s =
     (case s of
        [] \<Rightarrow> None
      | c # cs \<Rightarrow>
          if c = CHR ''-'' then
            (case parse_nat cs of None \<Rightarrow> None | Some (n, r) \<Rightarrow> Some (JNum (- int n), r))
          else
            (case parse_nat (c # cs) of None \<Rightarrow> None | Some (n, r) \<Rightarrow> Some (JNum (int n), r)))"

text \<open>
  The recursive-descent parser. Its first argument bounds the nesting and the number of
  elements still to read; \<open>JSON_parse\<close> starts it with more than the text can need.
\<close>

fun parse_value :: "nat \<Rightarrow> string \<Rightarrow> (json \<times> string) option"
  and parse_elems :: "nat \<Rightarrow> string \<Rightarrow> (json list \<times> string) option"
  and parse_members :: "nat \<Rightarrow> string \<Rightarrow> ((string \<times> json) list \<times> string) option"
where
  "parse_value 0 s = None"
| "parse_value (Suc n) s =
     (case skip_ws s of
        [] \<Rightarrow> None
      | c # cs \<Rightarrow>
          if c = CHR 0x22 then
            (case parse_chars cs of None \<Rightarrow> None | Some (x, r) \<Rightarrow> Some (JStr x, r))
          else if c = CHR ''['' then
            (case skip_ws cs of
               [] \<Rightarrow> None
             | d # ds \<Rightarrow>
                 if d = CHR '']'' then Some (JArr [], ds)
                 else (case parse_elems n (d # ds) of
                         None \<Rightarrow> None
                       | Some (xs, r) \<Rightarrow> Some (JArr xs, r)))
          else if c = CHR ''{'' then
            (case skip_ws cs of
               [] \<Rightarrow> None
             | d # ds \<Rightarrow>
                 if d = CHR ''}'' then Some (JObj [], ds)
                 else (case parse_members n (d # ds) of
                         None \<Rightarrow> None
                       | Some (kvs, r) \<Rightarrow> Some (JObj kvs, r)))
          else if c = CHR ''t'' then
            (case strip_prefix ''rue'' cs of None \<Rightarrow> None | Some r \<Rightarrow> Some (JBool True, r))
          else if c = CHR ''f'' then
            (case strip_prefix ''alse'' cs of None \<Rightarrow> None | Some r \<Rightarrow> Some (JBool False, r))
          else if c = CHR ''n'' then
            (case strip_prefix ''ull'' cs of None \<Rightarrow> None | Some r \<Rightarrow> Some (JNull, r))
          else parse_number (c # cs))"
| "parse_elems 0 s = None"
| "parse_elems (Suc n) s =
     (case parse_value n s of
        None \<Rightarrow> None
      | Some (v, r) \<Rightarrow>
          (case skip_ws r of
             [] \<Rightarrow> None
           | d # ds \<Rightarrow>
               if d = CHR '','' then
                 (case parse_elems n ds of
                    None \<Rightarrow> None
                  | Some (vs, r') \<Rightarrow> Some (v # vs, r'))
               else if d = CHR '']'' then Some ([v], ds)
               else None))"
| "parse_members 0 s = None"
| "parse_members (Suc n) s =
     (case skip_ws s of
        [] \<Rightarrow> None
      | q # cs \<Rightarrow>
          if q \<noteq> CHR 0x22 then None
          else
            (case parse_chars cs of
               None \<Rightarrow> None
             | Some (k, r) \<Rightarrow>
                 (case skip_ws r of
                    [] \<Rightarrow> None
                  | col # r1 \<Rightarrow>
                      if col \<noteq> CHR '':'' then None
                      else
                        (case parse_value n r1 of
                           None \<Rightarrow> None
                         | Some (v, r2) \<Rightarrow>
                             (case skip_ws r2 of
                                [] \<Rightarrow> None
                              | d # ds \<Rightarrow>
                                  if d = CHR '','' then
                                    (case parse_members n ds of
                                       None \<Rightarrow> None
                                     | Some (kvs, r') \<Rightarrow> Some ((k, v) # kvs, r'))
                                  else if d = CHR ''}'' then Some ([(k, v)], ds)
                                  else None)))))"

definition JSON_parse :: "string \<Rightarrow> json option" where
  "JSON_parse s =
     (case parse_value (Suc (length s)) s of
        None \<Rightarrow> None
      | Some (v, r) \<Rightarrow> if skip_ws r = [] then Some v else None)"

text \<open>
  \<open>js_field data name\<close> is the JavaScript expression \<^verbatim>\<open>data.name\<close> for the names this program
  reads: \<open>None\<close> is \<^verbatim>\<open>undefined\<close>. (Reading a property of \<^verbatim>\<open>null\<close> throws; the caller
  checks that first.)
\<close>

definition js_field :: "json \<Rightarrow> string \<Rightarrow> json option" where
  "js_field data name = (case data of JObj kvs \<Rightarrow> map_of (rev kvs) name | _ \<Rightarrow> None)"

subsection \<open>The remote store\<close>

text \<open>
  A key holds a string or a set of strings, with an optional time of expiry (in
  milliseconds of the store's clock). A key whose time has come is absent. The commands
  are the five the handler puts in a pipeline; a command the store answers with an error
  (a \<^verbatim>\<open>SETEX\<close> with a time to live that is not positive, a set command on a string)
  changes nothing, and ioredis reports it in the result of \<^verbatim>\<open>exec\<close> without throwing.
\<close>

datatype rval = Str string | Members "string list"

type_synonym store = "(string \<times> rval \<times> int option) list"

definition live :: "int \<Rightarrow> store \<Rightarrow> string \<Rightarrow> (rval \<times> int option) option" where
  "live t st k =
     (case map_of st k of
        None \<Rightarrow> None
      | Some (v, None) \<Rightarrow> Some (v, None)
      | Some (v, Some d) \<Rightarrow> if d \<le> t then None else Some (v, Some d))"

datatype cmd =
    SETEX string int string
  | SADD string string
  | EXPIRE string int
  | DEL string
  | SET string string

fun apply_cmd :: "int \<Rightarrow> cmd \<Rightarrow> store \<Rightarrow> store" where
  "apply_cmd t (SETEX k ttl v) st =
     (if ttl \<le> 0 then st else AList.update k (Str v, Some (t + ttl * 1000)) st)"
| "apply_cmd t (SADD k m) st =
     (case live t st k of
        None \<Rightarrow> AList.update k (Members [m], None) st
      | Some (Members ms, d) \<Rightarrow> AList.update k (Members (List.insert m ms), d) st
      | Some (Str v, d) \<Rightarrow> st)"
| "apply_cmd t (EXPIRE k ttl) st =
     (case live t st k of
        None \<Rightarrow> st
      | Some (v, d) \<Rightarrow>
          if ttl \<le> 0 then AList.delete k st
          else AList.update k (v, Some (t + ttl * 1000)) st)"
| "apply_cmd t (DEL k) st = AList.delete k st"
| "apply_cmd t (SET k v) st = AList.update k (Str v, None) st"

definition apply_cmds :: "int \<Rightarrow> cmd list \<Rightarrow> store \<Rightarrow> store" where
  "apply_cmds t cmds st = fold (apply_cmd t) cmds st"

text \<open>The pattern of \<^verbatim>\<open>KEYS\<close>: \<^verbatim>\<open>*\<close> stands for any run of characters.\<close>

fun glob :: "string \<Rightarrow> string \<Rightarrow> bool" where
  "glob [] s = (s = [])"
| "glob (p # ps) [] = (p = CHR ''*'' \<and> glob ps [])"
| "glob (p # ps) (c # cs) =
     (if p = CHR ''*'' then glob ps (c # cs) \<or> glob (p # ps) cs else p = c \<and> glob ps cs)"

datatype error =
    ConnectionError
  | ReplyError
  | SyntaxError
  | TypeError
  | ProducerError
  | StreamError

definition redis_get :: "int \<Rightarrow> store \<Rightarrow> string \<Rightarrow> error + string option" where
  "redis_get t st k =
     (case live t st k of
        None \<Rightarrow> Inr None
      | Some (Str v, d) \<Rightarrow> Inr (Some v)
      | Some (Members ms, d) \<Rightarrow> Inl ReplyError)"

definition redis_smembers :: "int \<Rightarrow> store \<Rightarrow> string \<Rightarrow> error + string list" where
  "redis_smembers t st k =
     (case live t st k of
        None \<Rightarrow> Inr []
      | Some (Members ms, d) \<Rightarrow> Inr ms
      | Some (Str v, d) \<Rightarrow> Inl ReplyError)"

definition redis_keys :: "int \<Rightarrow> store \<Rightarrow> string \<Rightarrow> string list" where
  "redis_keys t st pat = filter (\<lambda>k. live t st k \<noteq> None \<and> glob pat k) (remdups (map fst st))"

subsection \<open>The handler's state and its environment\<close>

text \<open>
  \<open>connected\<close>, \<open>tagTimestamps\<close> and \<open>pendingSets\<close> are the module's variables. A promise
  is a number; \<open>resolved\<close> holds the promises that are resolved and \<open>promises\<close> counts the
  ones created. \<open>redis\<close> is the content of the remote store. Two fields only record what
  the handler did: \<open>connects\<close> counts the attempts to open the two connections and
  \<open>batches\<close> lists the pipelines given to \<^verbatim>\<open>exec\<close>.
\<close>

record state =
  connected :: bool
  tagTimestamps :: "string \<rightharpoonup> int option"
  pendingSets :: "string \<rightharpoonup> nat"
  resolved :: "nat set"
  promises :: nat
  redis :: store
  connects :: nat
  batches :: "cmd list list"

definition init :: "store \<Rightarrow> state" where
  "init st =
     \<lparr>connected = False, tagTimestamps = Map.empty, pendingSets = Map.empty,
      resolved = {}, promises = 0, redis = st, connects = 0, batches = []\<rparr>"

text \<open>
  What one call meets outside the process: the clock of \<^verbatim>\<open>Date.now()\<close>, the store's own
  clock, and which of its requests fail. \<open>exec_fails = Some n\<close>: the connection is lost
  after \<open>n\<close> commands of the pipeline were applied, and \<^verbatim>\<open>exec\<close> rejects.
\<close>

record env =
  now :: int
  store_time :: int
  connect_ok :: bool
  get_fails :: "string \<Rightarrow> bool"
  smembers_fails :: "string \<Rightarrow> bool"
  keys_fails :: bool
  exec_fails :: "nat option"

text \<open>
  A call returns, throws, or is suspended on a promise that is not resolved: it can go
  on only after another call has resolved the promise.
\<close>

datatype 'a outcome = Returned 'a | Thrown error | Awaiting nat

definition readClient_get :: "env \<Rightarrow> state \<Rightarrow> string \<Rightarrow> error + string option" where
  "readClient_get ev s k =
     (if get_fails ev k then Inl ConnectionError else redis_get (store_time ev) (redis s) k)"

definition readClient_smembers :: "env \<Rightarrow> state \<Rightarrow> string \<Rightarrow> error + string list" where
  "readClient_smembers ev s k =
     (if smembers_fails ev k then Inl ConnectionError
      else redis_smembers (store_time ev) (redis s) k)"

definition readClient_keys :: "env \<Rightarrow> state \<Rightarrow> string \<Rightarrow> error + string list" where
  "readClient_keys ev s pat =
     (if keys_fails ev then Inl ConnectionError
      else Inr (redis_keys (store_time ev) (redis s) pat))"

definition pipeline_exec :: "env \<Rightarrow> cmd list \<Rightarrow> state \<Rightarrow> unit outcome \<times> state" where
  "pipeline_exec ev pipeline s =
     (case exec_fails ev of
        None \<Rightarrow>
          (Returned (),
           s\<lparr>redis := apply_cmds (store_time ev) pipeline (redis s),
             batches := batches s @ [pipeline]\<rparr>)
      | Some n \<Rightarrow>
          (Thrown ConnectionError,
           s\<lparr>redis := apply_cmds (store_time ev) (take n pipeline) (redis s),
             batches := batches s @ [pipeline]\<rparr>))"

subsection \<open>The handler\<close>

definition CACHE_PREFIX :: string where
  "CACHE_PREFIX = ''nextjs:cache:''"

definition TAGS_PREFIX :: string where
  "TAGS_PREFIX = ''nextjs:tags:''"

text \<open>
  \<^verbatim>\<open>withSpan\<close> runs its body in a tracing span, records a thrown error on the span and
  throws it again: the result is the body's. Spans and console output are not modelled.
\<close>

definition withSpan :: "'a outcome \<times> state \<Rightarrow> 'a outcome \<times> state" where
  "withSpan body = body"

text \<open>
  \<^verbatim>\<open>ensureConnected\<close> in two parts. What runs at the call itself, up to its \<^verbatim>\<open>await\<close>: the
  test of \<open>connected\<close> and, when it is false, the calls of \<^verbatim>\<open>connect()\<close> on the two clients
  (one attempt); the result tells whether the call is now waiting for them. What runs
  when the attempt has settled: \<^verbatim>\<open>connected = true\<close>, in the \<^verbatim>\<open>try\<close> and in the \<^verbatim>\<open>catch\<close>.
  Other calls can run between the two parts, and they see \<open>connected\<close> as the first part
  left it; \<open>ensureConnected\<close> is a call that runs alone.
\<close>

definition ensureConnected_start :: "state \<Rightarrow> bool \<times> state" where
  "ensureConnected_start s =
     (if connected s then (False, s) else (True, s\<lparr>connects := Suc (connects s)\<rparr>))"

definition ensureConnected_finish :: "env \<Rightarrow> state \<Rightarrow> state" where
  "ensureConnected_finish ev s1 =
     (if connect_ok ev then s1\<lparr>connected := True\<rparr> else s1\<lparr>connected := True\<rparr>)"

definition ensureConnected :: "env \<Rightarrow> state \<Rightarrow> state" where
  "ensureConnected ev s =
     (case ensureConnected_start s of
        (False, s1) \<Rightarrow> s1
      | (True, s1) \<Rightarrow> ensureConnected_finish ev s1)"

text \<open>
  A readable stream is the chunks it will give, ending in \<open>Done\<close> or in an error.
  \<open>read_all\<close> is the loop over \<^verbatim>\<open>reader.read()\<close>.
\<close>

datatype stream = Chunk "byte list" stream | Done | Errored

fun read_all :: "stream \<Rightarrow> byte list list \<Rightarrow> error + byte list list" where
  "read_all (Chunk v st) chunks = read_all st (chunks @ [v])"
| "read_all Done chunks = Inr chunks"
| "read_all Errored chunks = Inl StreamError"

text \<open>
  The entry a caller gives to \<^verbatim>\<open>set\<close> (when its promise resolves), and the object
  \<^verbatim>\<open>get\<close> returns. In the second the fields other than the payload are whatever the
  stored document holds (\<open>None\<close>: \<^verbatim>\<open>undefined\<close>).
\<close>

record entry =
  e_value :: stream
  e_tags :: "string list"
  e_stale :: "json option"
  e_timestamp :: int
  e_expire :: int
  e_revalidate :: int

datatype pending = Rejects | Resolves entry

record hit =
  r_value :: stream
  r_tags :: "json option"
  r_stale :: "json option"
  r_timestamp :: "json option"
  r_expire :: "json option"
  r_revalidate :: "json option"

text \<open>
  \<^verbatim>\<open>now > data.timestamp + data.revalidate * 1000\<close>. For two numbers this is integer
  arithmetic. An operand that is \<^verbatim>\<open>undefined\<close> makes the sum \<^verbatim>\<open>NaN\<close> and the comparison
  false; the model treats every operand that is not a number that way (JavaScript would
  coerce \<^verbatim>\<open>null\<close>, booleans and strings, which no entry written by \<^verbatim>\<open>set\<close> holds there).
\<close>

definition js_number :: "json option \<Rightarrow> int option" where
  "js_number v = (case v of Some (JNum n) \<Rightarrow> Some n | _ \<Rightarrow> None)"

definition past_revalidate :: "int \<Rightarrow> json \<Rightarrow> bool" where
  "past_revalidate t data =
     (case (js_number (js_field data ''timestamp''), js_number (js_field data ''revalidate'')) of
        (Some ts, Some rv) \<Rightarrow> t > ts + rv * 1000
      | _ \<Rightarrow> False)"

text \<open>
  \<^verbatim>\<open>Buffer.from(data.value, "base64")\<close>: the bytes of a string, a \<^verbatim>\<open>TypeError\<close> for
  \<^verbatim>\<open>undefined\<close> and for the other values (an array there is outside the model).
\<close>

definition Buffer_from_base64 :: "json option \<Rightarrow> error + byte list" where
  "Buffer_from_base64 v = (case v of Some (JStr b) \<Rightarrow> Inr (from_base64 b) | _ \<Rightarrow> Inl TypeError)"

text \<open>
  The body of \<^verbatim>\<open>get\<close>, inside \<^verbatim>\<open>withSpan\<close>. Reading a property of \<^verbatim>\<open>null\<close> throws.
  The stream's \<^verbatim>\<open>start\<close> runs while the stream is constructed, so what
  \<^verbatim>\<open>Buffer.from\<close> throws there is thrown by the body.
\<close>

definition get_body :: "env \<Rightarrow> string \<Rightarrow> string list \<Rightarrow> state \<Rightarrow> hit option outcome \<times> state" where
  "get_body ev cacheKey softTags s0 =
     (let s = ensureConnected ev s0 in
      case (case pendingSets s cacheKey of
              None \<Rightarrow> None
            | Some p \<Rightarrow> if p \<in> resolved s then None else Some p) of
        Some p \<Rightarrow> (Awaiting p, s)
      | None \<Rightarrow>
          (let key = CACHE_PREFIX @ cacheKey in
           case readClient_get ev s key of
             Inl e \<Rightarrow> (Thrown e, s)
           | Inr stored \<Rightarrow>
               (case stored of
                  None \<Rightarrow> (Returned None, s)
                | Some text \<Rightarrow>
                    if text = [] then (Returned None, s)
                    else
                      (case JSON_parse text of
                         None \<Rightarrow> (Thrown SyntaxError, s)
                       | Some data \<Rightarrow>
                           if data = JNull then (Thrown TypeError, s)
                           else if past_revalidate (now ev) data then (Returned None, s)
                           else
                             (case Buffer_from_base64 (js_field data ''value'') of
                                Inl e \<Rightarrow> (Thrown e, s)
                              | Inr bytes \<Rightarrow>
                                  (Returned
                                     (Some \<lparr>r_value = Chunk bytes Done,
                                            r_tags = js_field data ''tags'',
                                            r_stale = js_field data ''stale'',
                                            r_timestamp = js_field data ''timestamp'',
                                            r_expire = js_field data ''expire'',
                                            r_revalidate = js_field data ''revalidate''\<rparr>),
                                   s))))))"

definition get :: "env \<Rightarrow> string \<Rightarrow> string list \<Rightarrow> state \<Rightarrow> hit option outcome \<times> state" where
  "get ev cacheKey softTags s =
     (case withSpan (get_body ev cacheKey softTags s) of
        (Thrown e, s') \<Rightarrow> (Returned None, s')
      | r \<Rightarrow> r)"

text \<open>The loop of \<^verbatim>\<open>set\<close> over the entry's tags, adding two commands for each.\<close>

fun tag_cmds :: "cmd list \<Rightarrow> string \<Rightarrow> int \<Rightarrow> string list \<Rightarrow> cmd list" where
  "tag_cmds pipeline key ex [] = pipeline"
| "tag_cmds pipeline key ex (tag # tags) =
     (let tagKey = TAGS_PREFIX @ tag
      in tag_cmds (pipeline @ [SADD tagKey key, EXPIRE tagKey (ex + 60)]) key ex tags)"

text \<open>
  The object \<^verbatim>\<open>set\<close> gives to \<^verbatim>\<open>JSON.stringify\<close>; a member that is \<^verbatim>\<open>undefined\<close> is
  left out of the text.
\<close>

definition document :: "entry \<Rightarrow> byte list \<Rightarrow> json" where
  "document e data =
     JObj ([(''value'', JStr (toString_base64 data)),
            (''tags'', JArr (map JStr (e_tags e)))]
           @ (case e_stale e of None \<Rightarrow> [] | Some v \<Rightarrow> [(''stale'', v)])
           @ [(''timestamp'', JNum (e_timestamp e)),
              (''expire'', JNum (e_expire e)),
              (''revalidate'', JNum (e_revalidate e))])"

definition serialize :: "entry \<Rightarrow> byte list \<Rightarrow> string" where
  "serialize e data = JSON_stringify (document e data)"

definition set_body :: "env \<Rightarrow> string \<Rightarrow> pending \<Rightarrow> state \<Rightarrow> unit outcome \<times> state" where
  "set_body ev cacheKey pendingEntry s0 =
     (let s = ensureConnected ev s0 in
      case pendingEntry of
        Rejects \<Rightarrow> (Thrown ProducerError, s)
      | Resolves e \<Rightarrow>
          (case read_all (e_value e) [] of
             Inl err \<Rightarrow> (Thrown err, s)
           | Inr chunks \<Rightarrow>
               (let data = concat chunks;
                    key = CACHE_PREFIX @ cacheKey;
                    serialized = serialize e data;
                    pipeline = tag_cmds [SETEX key (e_expire e) serialized] key (e_expire e) (e_tags e)
                in pipeline_exec ev pipeline s)))"

text \<open>
  \<^verbatim>\<open>set\<close> in two parts. What runs at the call itself, before the first \<^verbatim>\<open>await\<close>: the
  promise is created and registered for the key. What runs afterwards: the body in its
  \<^verbatim>\<open>try\<close>, the \<^verbatim>\<open>catch\<close> that swallows what the body throws, and the \<^verbatim>\<open>finally\<close> that
  resolves the call's promise and deletes the key's registration. Other calls can run
  between the two parts; \<open>set_op\<close> is a call that runs alone.
\<close>

definition set_register :: "string \<Rightarrow> state \<Rightarrow> nat \<times> state" where
  "set_register cacheKey s =
     (let p = promises s
      in (p, s\<lparr>promises := Suc p, pendingSets := (pendingSets s)(cacheKey \<mapsto> p)\<rparr>))"

definition set_settle ::
  "env \<Rightarrow> string \<Rightarrow> pending \<Rightarrow> nat \<Rightarrow> state \<Rightarrow> unit outcome \<times> state" where
  "set_settle ev cacheKey pendingEntry p s1 =
     (let (r, s2) = withSpan (set_body ev cacheKey pendingEntry s1);
          s3 = s2\<lparr>resolved := insert p (resolved s2)\<rparr>;
          s4 = s3\<lparr>pendingSets := (pendingSets s3)(cacheKey := None)\<rparr>
      in (Returned (), s4))"

definition set_op :: "env \<Rightarrow> string \<Rightarrow> pending \<Rightarrow> state \<Rightarrow> unit outcome \<times> state" where
  "set_op ev cacheKey pendingEntry s =
     (let (p, s1) = set_register cacheKey s
      in set_settle ev cacheKey pendingEntry p s1)"

text \<open>\<^verbatim>\<open>s.replace(pat, "")\<close> with a string pattern: the first occurrence is removed.\<close>

fun remove_first :: "string \<Rightarrow> string \<Rightarrow> string" where
  "remove_first pat [] = []"
| "remove_first pat (c # cs) =
     (case strip_prefix pat (c # cs) of
        Some r \<Rightarrow> r
      | None \<Rightarrow> c # remove_first pat cs)"

fun refresh_loop :: "env \<Rightarrow> string list \<Rightarrow> state \<Rightarrow> unit outcome \<times> state" where
  "refresh_loop ev [] s = (Returned (), s)"
| "refresh_loop ev (tagKey # tagKeys) s =
     (let tag = remove_first '':timestamp'' (remove_first TAGS_PREFIX tagKey) in
      case readClient_get ev s tagKey of
        Inl e \<Rightarrow> (Thrown e, s)
      | Inr timestamp \<Rightarrow>
          (case timestamp of
             None \<Rightarrow> refresh_loop ev tagKeys s
           | Some text \<Rightarrow>
               if text = [] then refresh_loop ev tagKeys s
               else refresh_loop ev tagKeys
                      (s\<lparr>tagTimestamps := (tagTimestamps s)(tag \<mapsto> parseInt text)\<rparr>)))"

definition refreshTags_body :: "env \<Rightarrow> state \<Rightarrow> unit outcome \<times> state" where
  "refreshTags_body ev s0 =
     (let s = ensureConnected ev s0 in
      case readClient_keys ev s (TAGS_PREFIX @ ''*:timestamp'') of
        Inl e \<Rightarrow> (Thrown e, s)
      | Inr tagKeys \<Rightarrow> refresh_loop ev tagKeys s)"

definition refreshTags :: "env \<Rightarrow> state \<Rightarrow> unit outcome \<times> state" where
  "refreshTags ev s =
     (case withSpan (refreshTags_body ev s) of
        (Thrown e, s') \<Rightarrow> (Returned (), s')
      | r \<Rightarrow> r)"

text \<open>
  \<^verbatim>\<open>getExpiration\<close>: \<^verbatim>\<open>tagTimestamps.get(tag) ?? 0\<close>, and a comparison that is false for
  \<^verbatim>\<open>NaN\<close>.
\<close>

fun max_loop :: "(string \<rightharpoonup> int option) \<Rightarrow> string list \<Rightarrow> int \<Rightarrow> int" where
  "max_loop m [] maxTimestamp = maxTimestamp"
| "max_loop m (tag # tags) maxTimestamp =
     (let timestamp = (case m tag of None \<Rightarrow> Some 0 | Some v \<Rightarrow> v) in
      case timestamp of
        None \<Rightarrow> max_loop m tags maxTimestamp
      | Some n \<Rightarrow>
          if n > maxTimestamp then max_loop m tags n else max_loop m tags maxTimestamp)"

definition getExpiration :: "string list \<Rightarrow> state \<Rightarrow> int" where
  "getExpiration tags s =
     (if length tags = 0 then 0 else max_loop (tagTimestamps s) tags 0)"

text \<open>
  The loop of \<^verbatim>\<open>updateTags\<close> over the tags: it reads the tag's members, queues the
  deletions and the timestamp, and sets the tag's time in \<open>tagTimestamps\<close> at once.
\<close>

fun invalidate_loop ::
  "env \<Rightarrow> string list \<Rightarrow> cmd list \<Rightarrow> state \<Rightarrow> (error + cmd list) \<times> state" where
  "invalidate_loop ev [] pipeline s = (Inr pipeline, s)"
| "invalidate_loop ev (tag # tags) pipeline s =
     (let tagKey = TAGS_PREFIX @ tag in
      case readClient_smembers ev s tagKey of
        Inl e \<Rightarrow> (Inl e, s)
      | Inr cacheKeys \<Rightarrow>
          invalidate_loop ev tags
            (pipeline @ map DEL cacheKeys
               @ [DEL tagKey, SET (tagKey @ '':timestamp'') (number_toString (now ev))])
            (s\<lparr>tagTimestamps := (tagTimestamps s)(tag \<mapsto> Some (now ev))\<rparr>))"

definition updateTags_body ::
  "env \<Rightarrow> string list \<Rightarrow> int option \<Rightarrow> state \<Rightarrow> unit outcome \<times> state" where
  "updateTags_body ev tags durations s0 =
     (let s = ensureConnected ev s0 in
      case invalidate_loop ev tags [] s of
        (Inl e, s') \<Rightarrow> (Thrown e, s')
      | (Inr pipeline, s') \<Rightarrow> pipeline_exec ev pipeline s')"

definition updateTags ::
  "env \<Rightarrow> string list \<Rightarrow> int option \<Rightarrow> state \<Rightarrow> unit outcome \<times> state" where
  "updateTags ev tags durations s =
     (case withSpan (updateTags_body ev tags durations s) of
        (Thrown e, s') \<Rightarrow> (Returned (), s')
      | r \<Rightarrow> r)"

text \<open>
  Whether \<^verbatim>\<open>updateTags\<close> can read the member set of a tag: the request does not fail
  and the key does not hold a string.
\<close>

definition members_readable :: "env \<Rightarrow> state \<Rightarrow> string \<Rightarrow> bool" where
  "members_readable ev s tag =
     (case readClient_smembers ev s (TAGS_PREFIX @ tag) of Inl e \<Rightarrow> False | Inr ms \<Rightarrow> True)"

subsection \<open>Sequences of calls\<close>

datatype call =
    Get string "string list"
  | Set string pending
  | RefreshTags
  | GetExpiration "string list"
  | UpdateTags "string list" "int option"

fun step :: "env \<times> call \<Rightarrow> state \<Rightarrow> state" where
  "step (ev, Get cacheKey softTags) s = snd (get ev cacheKey softTags s)"
| "step (ev, Set cacheKey pendingEntry) s = snd (set_op ev cacheKey pendingEntry s)"
| "step (ev, RefreshTags) s = snd (refreshTags ev s)"
| "step (ev, GetExpiration tags) s = s"
| "step (ev, UpdateTags tags durations) s = snd (updateTags ev tags durations s)"

definition run :: "(env \<times> call) list \<Rightarrow> state \<Rightarrow> state" where
  "run calls s = fold step calls s"

text \<open>
  Calls of \<^verbatim>\<open>ensureConnected\<close> that overlap (every public operation begins with one), as
  the events of the process in their order: a call enters and runs up to its \<^verbatim>\<open>await\<close>,
  or the attempt of a waiting call has settled and that call goes on. \<open>waiting\<close> counts the
  calls that wait; a schedule that resumes a call when none waits is not one of the
  program (\<open>None\<close>).
\<close>

datatype event = Enters | Resumes env

fun overlapping :: "event list \<Rightarrow> nat \<Rightarrow> state \<Rightarrow> state option" where
  "overlapping [] waiting s = Some s"
| "overlapping (Enters # es) waiting s =
     (case ensureConnected_start s of
        (True, s1) \<Rightarrow> overlapping es (Suc waiting) s1
      | (False, s1) \<Rightarrow> overlapping es waiting s1)"
| "overlapping (Resumes ev # es) waiting s =
     (case waiting of
        0 \<Rightarrow> None
      | Suc n \<Rightarrow> overlapping es n (ensureConnected_finish ev s))"


subsection \<open>Concrete inputs\<close>

text \<open>An environment in which nothing fails, with both clocks at \<open>t\<close>.\<close>

definition quiet :: "int \<Rightarrow> env" where
  "quiet t =
     \<lparr>now = t, store_time = t, connect_ok = True, get_fails = (\<lambda>k. False),
      smembers_fails = (\<lambda>k. False), keys_fails = False, exec_fails = None\<rparr>"

text \<open>
  An entry with a payload of two chunks, written at time 0, to be revalidated after one
  second and to expire after one hour.
\<close>

definition wine :: entry where
  "wine =
     \<lparr>e_value = Chunk [0x61, 0xFF] (Chunk [0x00] Done), e_tags = [''wines''],
      e_stale = Some (JBool False), e_timestamp = 0, e_expire = 3600, e_revalidate = 1\<rparr>"

text \<open>
  Two writers of one key: \<^verbatim>\<open>set("w1", a)\<close> is called, then \<^verbatim>\<open>set("w1", b)\<close> is called
  before the first has gone on, and then the first runs to its end (the entry of the
  second is still being produced, so the second has not gone past its registration).
\<close>

definition two_writers :: state where
  "two_writers =
     snd (set_settle (quiet 0) ''w1'' (Resolves wine)
            (fst (set_register ''w1'' (init [])))
            (snd (set_register ''w1'' (snd (set_register ''w1'' (init []))))))"

section \<open>Properties\<close>

subsection \<open>What a call leaves of the connection state\<close>

lemma ensureConnected_unfold:
  "ensureConnected ev s =
     (if connected s then s
      else
        (let s1 = s\<lparr>connects := Suc (connects s)\<rparr>
         in if connect_ok ev then s1\<lparr>connected := True\<rparr> else s1\<lparr>connected := True\<rparr>))"
  by (simp add: ensureConnected_def ensureConnected_start_def ensureConnected_finish_def)

lemma ensureConnected_connected: "connected (ensureConnected ev s)"
  by (simp add: ensureConnected_unfold Let_def)

lemma ensureConnected_connects:
  "connects (ensureConnected ev s) = (if connected s then connects s else Suc (connects s))"
  by (simp add: ensureConnected_unfold Let_def)

lemma ensureConnected_fields:
  "tagTimestamps (ensureConnected ev s) = tagTimestamps s"
  "pendingSets (ensureConnected ev s) = pendingSets s"
  "resolved (ensureConnected ev s) = resolved s"
  "promises (ensureConnected ev s) = promises s"
  "redis (ensureConnected ev s) = redis s"
  "batches (ensureConnected ev s) = batches s"
  by (simp_all add: ensureConnected_unfold Let_def)

lemma ensureConnected_idem: "connected s \<Longrightarrow> ensureConnected ev s = s"
  by (simp add: ensureConnected_unfold)

lemma readClient_get_ensureConnected:
  "readClient_get ev (ensureConnected ev' s) k = readClient_get ev s k"
  by (simp add: readClient_get_def ensureConnected_fields)

lemma get_body_state: "snd (get_body ev k ts s) = ensureConnected ev s"
  by (simp add: get_body_def Let_def split: option.splits sum.splits)

lemma get_state: "snd (get ev k ts s) = ensureConnected ev s"
proof -
  have "snd (get ev k ts s) = snd (get_body ev k ts s)"
    by (cases "get_body ev k ts s") (auto simp: get_def withSpan_def split: outcome.splits)
  then show ?thesis by (simp add: get_body_state)
qed

lemma get_never_throws: "fst (get ev k ts s) \<noteq> Thrown e"
  by (cases "get_body ev k ts s") (auto simp: get_def withSpan_def split: outcome.splits)

lemma get_miss_on_throw:
  "fst (get_body ev k ts s) = Thrown e \<Longrightarrow> fst (get ev k ts s) = Returned None"
  by (cases "get_body ev k ts s") (auto simp: get_def withSpan_def split: outcome.splits)

lemma get_result_of_body:
  "fst (get_body ev k ts s) = Returned r \<Longrightarrow> fst (get ev k ts s) = Returned r"
  by (cases "get_body ev k ts s") (auto simp: get_def withSpan_def split: outcome.splits)

lemma pipeline_exec_fields:
  "connected (snd (pipeline_exec ev p s)) = connected s"
  "connects (snd (pipeline_exec ev p s)) = connects s"
  "tagTimestamps (snd (pipeline_exec ev p s)) = tagTimestamps s"
  "pendingSets (snd (pipeline_exec ev p s)) = pendingSets s"
  "resolved (snd (pipeline_exec ev p s)) = resolved s"
  "promises (snd (pipeline_exec ev p s)) = promises s"
  by (simp_all add: pipeline_exec_def split: option.splits)

lemma pipeline_exec_not_awaiting: "fst (pipeline_exec ev p s) \<noteq> Awaiting q"
  by (simp add: pipeline_exec_def split: option.splits)

lemma set_body_fields:
  "connected (snd (set_body ev k pe s)) = connected (ensureConnected ev s)"
  "connects (snd (set_body ev k pe s)) = connects (ensureConnected ev s)"
  "tagTimestamps (snd (set_body ev k pe s)) = tagTimestamps s"
  by (simp_all add: set_body_def Let_def pipeline_exec_fields ensureConnected_fields
      split: pending.splits sum.splits)

lemma set_op_unfold:
  "set_op ev cacheKey pendingEntry s =
     (let p = promises s;
          s1 = s\<lparr>promises := Suc p, pendingSets := (pendingSets s)(cacheKey \<mapsto> p)\<rparr>;
          (r, s2) = withSpan (set_body ev cacheKey pendingEntry s1);
          s3 = s2\<lparr>resolved := insert p (resolved s2)\<rparr>;
          s4 = s3\<lparr>pendingSets := (pendingSets s3)(cacheKey := None)\<rparr>
      in (Returned (), s4))"
  by (simp add: set_op_def set_register_def set_settle_def Let_def)

lemma set_op_returns: "fst (set_op ev k pe s) = Returned ()"
  by (simp add: set_op_unfold Let_def split: prod.splits)

lemma set_op_connection:
  "connected (snd (set_op ev k pe s)) = True"
  "connects (snd (set_op ev k pe s)) = (if connected s then connects s else Suc (connects s))"
proof -
  let ?s1 = "s\<lparr>promises := Suc (promises s), pendingSets := (pendingSets s)(k \<mapsto> promises s)\<rparr>"
  obtain r s2 where b: "set_body ev k pe ?s1 = (r, s2)"
    by (cases "set_body ev k pe ?s1")
  have c: "connected s2 = connected (ensureConnected ev ?s1)"
    "connects s2 = connects (ensureConnected ev ?s1)"
    using set_body_fields(1,2)[of ev k pe ?s1] b by simp_all
  show "connected (snd (set_op ev k pe s)) = True"
    using b c by (simp add: set_op_unfold Let_def withSpan_def ensureConnected_connected)
  show "connects (snd (set_op ev k pe s)) = (if connected s then connects s else Suc (connects s))"
    using b c by (simp add: set_op_unfold Let_def withSpan_def ensureConnected_connects)
qed

lemma refresh_loop_fields:
  "connected (snd (refresh_loop ev ks s)) = connected s \<and>
   connects (snd (refresh_loop ev ks s)) = connects s \<and>
   redis (snd (refresh_loop ev ks s)) = redis s \<and>
   fst (refresh_loop ev ks s) \<noteq> Awaiting q"
  by (induction ev ks s rule: refresh_loop.induct)
     (auto simp: Let_def split: sum.splits option.splits)

lemma refreshTags_body_connection:
  "connected (snd (refreshTags_body ev s)) = True"
  "connects (snd (refreshTags_body ev s)) = (if connected s then connects s else Suc (connects s))"
  "fst (refreshTags_body ev s) \<noteq> Awaiting q"
  by (simp_all add: refreshTags_body_def Let_def refresh_loop_fields ensureConnected_connected
      ensureConnected_connects split: sum.splits)

lemma refreshTags_returns: "fst (refreshTags ev s) = Returned ()"
  using refreshTags_body_connection(3)[of ev s]
  by (cases "refreshTags_body ev s") (auto simp: refreshTags_def withSpan_def split: outcome.splits)

lemma refreshTags_state: "snd (refreshTags ev s) = snd (refreshTags_body ev s)"
  by (cases "refreshTags_body ev s") (auto simp: refreshTags_def withSpan_def split: outcome.splits)

lemma invalidate_loop_fields:
  "connected (snd (invalidate_loop ev ts p s)) = connected s \<and>
   connects (snd (invalidate_loop ev ts p s)) = connects s \<and>
   pendingSets (snd (invalidate_loop ev ts p s)) = pendingSets s \<and>
   redis (snd (invalidate_loop ev ts p s)) = redis s \<and>
   batches (snd (invalidate_loop ev ts p s)) = batches s"
  by (induction ev ts p s rule: invalidate_loop.induct) (auto simp: Let_def split: sum.splits)

lemma updateTags_body_connection:
  "connected (snd (updateTags_body ev ts d s)) = True"
  "connects (snd (updateTags_body ev ts d s)) = (if connected s then connects s else Suc (connects s))"
  "fst (updateTags_body ev ts d s) \<noteq> Awaiting q"
proof -
  let ?s = "ensureConnected ev s"
  obtain r s' where l: "invalidate_loop ev ts [] ?s = (r, s')"
    by (cases "invalidate_loop ev ts [] ?s")
  have c: "connected s' = connected ?s" "connects s' = connects ?s"
    using invalidate_loop_fields[of ev ts "[]" ?s] l by simp_all
  show "connected (snd (updateTags_body ev ts d s)) = True"
    using l c by (simp add: updateTags_body_def Let_def pipeline_exec_fields
        ensureConnected_connected split: sum.splits)
  show "connects (snd (updateTags_body ev ts d s)) = (if connected s then connects s else Suc (connects s))"
    using l c by (simp add: updateTags_body_def Let_def pipeline_exec_fields
        ensureConnected_connects split: sum.splits)
  show "fst (updateTags_body ev ts d s) \<noteq> Awaiting q"
    using l by (simp add: updateTags_body_def Let_def pipeline_exec_not_awaiting split: sum.splits)
qed

lemma updateTags_returns: "fst (updateTags ev ts d s) = Returned ()"
  using updateTags_body_connection(3)[of ev ts d s]
  by (cases "updateTags_body ev ts d s") (auto simp: updateTags_def withSpan_def split: outcome.splits)

lemma updateTags_state: "snd (updateTags ev ts d s) = snd (updateTags_body ev ts d s)"
  by (cases "updateTags_body ev ts d s") (auto simp: updateTags_def withSpan_def split: outcome.splits)

lemma step_connection:
  assumes "connects s \<le> 1 \<and> (connected s \<or> connects s = 0)"
  shows "connects (step c s) \<le> 1 \<and> (connected (step c s) \<or> connects (step c s) = 0)"
proof (cases c)
  case (Pair ev op)
  show ?thesis
  proof (cases op)
    case (Get k ts)
    with Pair assms show ?thesis
      by (auto simp: get_state ensureConnected_connected ensureConnected_connects)
  next
    case (Set k pe)
    with Pair assms show ?thesis by (auto simp: set_op_connection)
  next
    case RefreshTags
    with Pair assms show ?thesis by (auto simp: refreshTags_state refreshTags_body_connection)
  next
    case (GetExpiration ts)
    with Pair assms show ?thesis by simp
  next
    case (UpdateTags ts d)
    with Pair assms show ?thesis by (auto simp: updateTags_state updateTags_body_connection)
  qed
qed

lemma run_connection:
  "connects s \<le> 1 \<and> (connected s \<or> connects s = 0) \<Longrightarrow>
   connects (run calls s) \<le> 1 \<and> (connected (run calls s) \<or> connects (run calls s) = 0)"
  unfolding run_def
proof (induction calls arbitrary: s)
  case Nil
  then show ?case by simp
next
  case (Cons c calls)
  from Cons.prems have "connects (step c s) \<le> 1 \<and> (connected (step c s) \<or> connects (step c s) = 0)"
    by (rule step_connection)
  then show ?case using Cons.IH by simp
qed

subsection \<open>Evaluating the handler on concrete inputs\<close>

lemmas handler_defs = updateTags_def withSpan_def updateTags_body_def ensureConnected_unfold init_def
  quiet_def readClient_smembers_def redis_smembers_def live_def pipeline_exec_def getExpiration_def
  Let_def TAGS_PREFIX_def CACHE_PREFIX_def apply_cmds_def members_readable_def


subsection \<open>The coalescer slot of a write\<close>

text \<open>
  C6. A call of \<^verbatim>\<open>set\<close> registers its promise for the key when it is called.
  Whatever happened in between, whatever the environment does and whatever the entry's
  promise and stream do, the rest of the call returns normally, and in the state it
  leaves \<open>pendingSets\<close> has no entry for the key and the call's promise is resolved.
  The same holds of a call that runs alone (\<open>set_op\<close>), whose promise is the one
  numbered \<open>promises s\<close>.
\<close>

theorem set_releases_slot:
  "pendingSets (snd (set_register cacheKey s)) cacheKey = Some (fst (set_register cacheKey s)) \<and>
   fst (set_settle ev cacheKey pendingEntry p s1) = Returned () \<and>
   pendingSets (snd (set_settle ev cacheKey pendingEntry p s1)) cacheKey = None \<and>
   p \<in> resolved (snd (set_settle ev cacheKey pendingEntry p s1)) \<and>
   fst (set_op ev cacheKey pendingEntry s) = Returned () \<and>
   pendingSets (snd (set_op ev cacheKey pendingEntry s)) cacheKey = None \<and>
   promises s \<in> resolved (snd (set_op ev cacheKey pendingEntry s))"
  by (simp add: set_op_def set_register_def set_settle_def Let_def split: prod.splits)

subsection \<open>No exception reaches the caller\<close>

lemma get_miss_on_failed_read:
  assumes "pendingSets s k = None" and "get_fails ev (CACHE_PREFIX @ k)"
  shows "fst (get ev k ts s) = Returned None"
proof -
  have "fst (get_body ev k ts s) = Thrown ConnectionError"
    using assms by (simp add: get_body_def Let_def ensureConnected_fields readClient_get_def)
  then show ?thesis by (rule get_miss_on_throw)
qed

lemma JSON_parse_Nil: "JSON_parse [] = None"
  by (simp add: JSON_parse_def skip_ws_def)

lemma get_miss_on_malformed:
  assumes "pendingSets s k = None"
      and "readClient_get ev s (CACHE_PREFIX @ k) = Inr (Some stored)"
      and "JSON_parse stored = None"
  shows "fst (get ev k ts s) = Returned None"
proof (cases "stored = []")
  case True
  have "fst (get_body ev k ts s) = Returned None"
    using assms True
    by (simp add: get_body_def Let_def ensureConnected_fields readClient_get_ensureConnected)
  then show ?thesis by (rule get_result_of_body)
next
  case False
  have "fst (get_body ev k ts s) = Thrown SyntaxError"
    using assms False
    by (simp add: get_body_def Let_def ensureConnected_fields readClient_get_ensureConnected)
  then show ?thesis by (rule get_miss_on_throw)
qed

text \<open>
  C3. \<^verbatim>\<open>get\<close> never throws: whenever its body throws it returns \<^verbatim>\<open>undefined\<close>, in
  particular when the read of the store fails and when the stored text is not JSON
  (no write to the key being in flight, so that the call is not suspended).
  \<^verbatim>\<open>set\<close>, \<^verbatim>\<open>refreshTags\<close> and \<^verbatim>\<open>updateTags\<close> return normally in every environment
  and state.
\<close>

theorem no_exception_reaches_caller:
  "fst (get ev k ts s) \<noteq> Thrown e \<and>
   (fst (get_body ev k ts s) = Thrown e \<longrightarrow> fst (get ev k ts s) = Returned None) \<and>
   (pendingSets s k = None \<and> get_fails ev (CACHE_PREFIX @ k) \<longrightarrow>
      fst (get ev k ts s) = Returned None) \<and>
   (pendingSets s k = None \<and> readClient_get ev s (CACHE_PREFIX @ k) = Inr (Some stored) \<and>
    JSON_parse stored = None \<longrightarrow> fst (get ev k ts s) = Returned None) \<and>
   fst (set_op ev k pe s) = Returned () \<and>
   fst (refreshTags ev s) = Returned () \<and>
   fst (updateTags ev tags d s) = Returned ()"
  using get_miss_on_failed_read [of s k ev ts] get_miss_on_malformed [of s k ev stored ts]
  by (simp add: get_never_throws get_miss_on_throw set_op_returns refreshTags_returns
      updateTags_returns)

text \<open>
  The witness: a stored text that is not JSON, read once in a quiet environment and once
  with a read of the store that fails.
\<close>

theorem no_exception_reaches_caller_witness:
  "fst (get_body (quiet 5) ''k'' [] (init [(''nextjs:cache:k'', Str ''{broken'', None)]))
     = Thrown SyntaxError \<and>
   JSON_parse ''{broken'' = None \<and>
   fst (get (quiet 5) ''k'' [] (init [(''nextjs:cache:k'', Str ''{broken'', None)]))
     = Returned None \<and>
   fst (get ((quiet 5)\<lparr>get_fails := (\<lambda>k. True)\<rparr>) ''k'' []
         (init [(''nextjs:cache:k'', Str ''{broken'', None)])) = Returned None \<and>
   fst (set_op (quiet 5) ''k'' Rejects (init [(''nextjs:cache:k'', Str ''{broken'', None)]))
     = Returned ()"
proof -
  let ?s = "init [(''nextjs:cache:k'', Str ''{broken'', None)]"
  let ?ev = "(quiet 5)\<lparr>get_fails := (\<lambda>k. True)\<rparr>"
  have p: "JSON_parse ''{broken'' = None"
    by (simp add: JSON_parse_def skip_ws_def is_ws_def)
  have b: "fst (get_body (quiet 5) ''k'' [] ?s) = Thrown SyntaxError"
    by (simp add: get_body_def ensureConnected_unfold init_def quiet_def Let_def
        readClient_get_def redis_get_def live_def CACHE_PREFIX_def p)
  have i: "pendingSets ?s ''k'' = None" by (simp add: init_def)
  have r: "readClient_get (quiet 5) ?s (CACHE_PREFIX @ ''k'') = Inr (Some ''{broken'')"
    by (simp add: init_def quiet_def readClient_get_def redis_get_def live_def CACHE_PREFIX_def)
  have f: "get_fails ?ev (CACHE_PREFIX @ ''k'')" by simp
  from no_exception_reaches_caller [of "quiet 5" "''k''" "[]" ?s SyntaxError "''{broken''" Rejects "[]" None]
    b i r p
  have one: "fst (get (quiet 5) ''k'' [] ?s) = Returned None \<and>
             fst (set_op (quiet 5) ''k'' Rejects ?s) = Returned ()"
    by blast
  from no_exception_reaches_caller [of ?ev "''k''" "[]" ?s SyntaxError "''{broken''" Rejects "[]" None]
    i f
  have two: "fst (get ?ev ''k'' [] ?s) = Returned None"
    by blast
  from one two b p show ?thesis by blast
qed

subsection \<open>Connecting\<close>

lemma overlapping_connected:
  "connected s \<Longrightarrow> overlapping es w s = Some s' \<Longrightarrow> connects s' = connects s"
proof (induction es arbitrary: w s)
  case Nil
  then show ?case by simp
next
  case (Cons e es)
  show ?case
  proof (cases e)
    case Enters
    with Cons.prems have "overlapping es w s = Some s'"
      by (simp add: ensureConnected_start_def)
    with Cons.prems(1) show ?thesis by (rule Cons.IH)
  next
    case (Resumes ev)
    with Cons.prems obtain n where "overlapping es n (ensureConnected_finish ev s) = Some s'"
      by (auto split: nat.splits)
    moreover have "connected (ensureConnected_finish ev s)"
      by (simp add: ensureConnected_finish_def)
    ultimately have "connects s' = connects (ensureConnected_finish ev s)" by (rule Cons.IH [rotated])
    then show ?thesis by (simp add: ensureConnected_finish_def)
  qed
qed

lemma overlapping_connects:
  "\<not> connected s \<Longrightarrow> overlapping es w s = Some s' \<Longrightarrow>
   connects s' = connects s + length (takeWhile (\<lambda>e. e = Enters) es)"
proof (induction es arbitrary: w s)
  case Nil
  then show ?case by simp
next
  case (Cons e es)
  show ?case
  proof (cases e)
    case Enters
    let ?s1 = "s\<lparr>connects := Suc (connects s)\<rparr>"
    from Cons.prems Enters have "overlapping es (Suc w) ?s1 = Some s'"
      by (simp add: ensureConnected_start_def)
    moreover have "\<not> connected ?s1" using Cons.prems(1) by simp
    ultimately have "connects s' = connects ?s1 + length (takeWhile (\<lambda>e. e = Enters) es)"
      by (rule Cons.IH [rotated])
    with Enters show ?thesis by simp
  next
    case (Resumes ev)
    with Cons.prems obtain n where "overlapping es n (ensureConnected_finish ev s) = Some s'"
      by (auto split: nat.splits)
    moreover have "connected (ensureConnected_finish ev s)"
      by (simp add: ensureConnected_finish_def)
    ultimately have "connects s' = connects (ensureConnected_finish ev s)"
      by (rule overlapping_connected [rotated])
    with Resumes show ?thesis by (simp add: ensureConnected_finish_def)
  qed
qed

lemma init_fields: "\<not> connected (init st)" "connects (init st) = 0"
  by (simp_all add: init_def)

text \<open>
  C10 as stated fails: \<open>connected\<close> is set only after the \<^verbatim>\<open>await\<close> of the attempt, so a call
  that enters before the first one has resumed finds it false and connects again. Here
  two calls enter and then both resume: \<^verbatim>\<open>connect()\<close> was called twice.
\<close>

theorem overlapping_calls_connect_twice:
  "map_option connects
     (overlapping [Enters, Enters, Resumes (quiet 1), Resumes (quiet 1)] 0 (init [])) = Some 2"
  by (simp add: ensureConnected_start_def ensureConnected_finish_def init_def)

text \<open>
  C10 (amended). When a call of \<^verbatim>\<open>ensureConnected\<close> resumes, and so when one has run to its
  end, the flag \<open>connected\<close> is true, whether the attempt succeeded or failed; a call that
  enters in a state where the flag is true does not wait and changes nothing. So in every
  sequence of calls of the public operations, each run to its end before the next
  starts, the connections are opened at most once, and a failed attempt is not tried
  again. When calls overlap, the number of attempts is the number of calls that entered
  before the first call resumed.
\<close>

theorem connects_once_without_overlap:
  "connected (ensureConnected_finish ev s) \<and>
   connected (ensureConnected ev s) \<and>
   (connected s' \<longrightarrow> ensureConnected_start s' = (False, s') \<and> ensureConnected ev' s' = s') \<and>
   connects (run calls (init st)) \<le> 1 \<and>
   (overlapping es 0 (init st) = Some s'' \<longrightarrow>
      connects s'' = length (takeWhile (\<lambda>e. e = Enters) es))"
proof -
  have "connects (init st) \<le> 1 \<and> (connected (init st) \<or> connects (init st) = 0)"
    by (simp add: init_def)
  then have "connects (run calls (init st)) \<le> 1"
    using run_connection by blast
  moreover have "overlapping es 0 (init st) = Some s'' \<longrightarrow>
      connects s'' = length (takeWhile (\<lambda>e. e = Enters) es)"
    using overlapping_connects [of "init st" es 0 s''] by (simp add: init_fields)
  ultimately show ?thesis
    by (simp add: ensureConnected_connected ensureConnected_idem ensureConnected_start_def
        ensureConnected_finish_def)
qed

text \<open>
  The witness: the first call fails to connect and two more calls follow; and three calls
  enter before the first resumes, a fourth after it.
\<close>

theorem connects_once_without_overlap_witness:
  "connected (ensureConnected_finish ((quiet 1)\<lparr>connect_ok := False\<rparr>) (init [])) \<and>
   connected (ensureConnected ((quiet 1)\<lparr>connect_ok := False\<rparr>) (init [])) \<and>
   ensureConnected_start (ensureConnected ((quiet 1)\<lparr>connect_ok := False\<rparr>) (init []))
     = (False, ensureConnected ((quiet 1)\<lparr>connect_ok := False\<rparr>) (init [])) \<and>
   ensureConnected (quiet 2) (ensureConnected ((quiet 1)\<lparr>connect_ok := False\<rparr>) (init []))
     = ensureConnected ((quiet 1)\<lparr>connect_ok := False\<rparr>) (init []) \<and>
   connects (run [((quiet 1)\<lparr>connect_ok := False\<rparr>, Get ''k'' []),
                  (quiet 2, Set ''k'' (Resolves wine)),
                  (quiet 3, RefreshTags)] (init [])) \<le> 1 \<and>
   (\<exists>s. overlapping [Enters, Enters, Enters, Resumes ((quiet 1)\<lparr>connect_ok := False\<rparr>), Enters,
                       Resumes (quiet 2), Resumes (quiet 2)] 0 (init []) = Some s \<and>
        connects s = 3)"
proof -
  let ?ev = "(quiet 1)\<lparr>connect_ok := False\<rparr>"
  let ?s = "ensureConnected ?ev (init [])"
  let ?es = "[Enters, Enters, Enters, Resumes ?ev, Enters, Resumes (quiet 2), Resumes (quiet 2)]"
  have c: "connected ?s"
    by (simp add: ensureConnected_unfold init_def quiet_def Let_def)
  have o: "overlapping ?es 0 (init []) = Some ((init [])\<lparr>connects := 3, connected := True\<rparr>)"
    by (simp add: ensureConnected_start_def ensureConnected_finish_def init_def quiet_def)
  have n: "length (takeWhile (\<lambda>e. e = Enters) ?es) = 3"
    by simp
  from connects_once_without_overlap [of ?ev "init []" ?s "quiet 2"
      "[(?ev, Get ''k'' []), (quiet 2, Set ''k'' (Resolves wine)), (quiet 3, RefreshTags)]" "[]"
      ?es "(init [])\<lparr>connects := 3, connected := True\<rparr>"] c o n
  show ?thesis by simp
qed

subsection \<open>What an invalidation does\<close>

lemma apply_cmds_absent:
  assumes "\<forall>c \<in> set cmds. (\<exists>x. c = DEL x) \<or> (\<exists>x v. c = SET x v \<and> x \<noteq> K)"
      and "map_of st K = None \<or> DEL K \<in> set cmds"
  shows "map_of (apply_cmds t cmds st) K = None"
  using assms unfolding apply_cmds_def
proof (induction cmds arbitrary: st)
  case Nil
  then show ?case by simp
next
  case (Cons c cmds)
  have rest: "\<forall>c \<in> set cmds. (\<exists>x. c = DEL x) \<or> (\<exists>x v. c = SET x v \<and> x \<noteq> K)"
    using Cons.prems(1) by simp
  have "map_of (apply_cmd t c st) K = None \<or> DEL K \<in> set cmds"
  proof (cases "\<exists>x. c = DEL x")
    case True
    then obtain x where c: "c = DEL x" by blast
    show ?thesis
    proof (cases "x = K")
      case True
      with c show ?thesis by (simp add: delete_conv)
    next
      case False
      with c Cons.prems(2) show ?thesis by (auto simp: delete_conv)
    qed
  next
    case False
    with Cons.prems(1) obtain x v where c: "c = SET x v" "x \<noteq> K" by auto
    with Cons.prems(2) show ?thesis by (auto simp: update_conv')
  qed
  with Cons.IH [OF rest] show ?case by simp
qed

lemma prefixes_differ: "TAGS_PREFIX @ y \<noteq> CACHE_PREFIX @ k"
  by (simp add: TAGS_PREFIX_def CACHE_PREFIX_def)

lemma readClient_smembers_tagTimestamps:
  "readClient_smembers ev (s\<lparr>tagTimestamps := m\<rparr>) k = readClient_smembers ev s k"
  by (simp add: readClient_smembers_def)

lemma invalidate_loop_success:
  "invalidate_loop ev tags p s = (Inr pl, s') \<Longrightarrow>
     pl = p @ concat (map (\<lambda>tag.
            map DEL (case readClient_smembers ev s (TAGS_PREFIX @ tag) of Inl e \<Rightarrow> [] | Inr ms \<Rightarrow> ms)
            @ [DEL (TAGS_PREFIX @ tag),
               SET (TAGS_PREFIX @ tag @ '':timestamp'') (number_toString (now ev))]) tags)"
proof (induction ev tags p s arbitrary: pl s' rule: invalidate_loop.induct)
  case (1 ev pipeline s)
  then show ?case by simp
next
  case (2 ev tag tags pipeline s)
  show ?case
  proof (cases "readClient_smembers ev s (TAGS_PREFIX @ tag)")
    case (Inl e)
    with "2.prems" show ?thesis by simp
  next
    case (Inr ms)
    have "invalidate_loop ev tags
            (pipeline @ map DEL ms @ [DEL (TAGS_PREFIX @ tag),
               SET ((TAGS_PREFIX @ tag) @ '':timestamp'') (number_toString (now ev))])
            (s\<lparr>tagTimestamps := (tagTimestamps s)(tag \<mapsto> Some (now ev))\<rparr>) = (Inr pl, s')"
      using "2.prems" Inr by simp
    from "2.IH" [OF refl Inr this] Inr show ?thesis
      by (simp add: readClient_smembers_tagTimestamps)
  qed
qed

lemma invalidation_deletes:
  assumes "invalidate_loop ev tags [] s = (Inr pl, s')"
      and "t \<in> set tags"
      and "readClient_smembers ev s (TAGS_PREFIX @ t) = Inr ms"
      and "CACHE_PREFIX @ k \<in> set ms"
  shows "map_of (apply_cmds u pl st) (CACHE_PREFIX @ k) = None"
proof -
  note pl = invalidate_loop_success [OF assms(1)]
  have del: "DEL (CACHE_PREFIX @ k) \<in> set pl"
    unfolding pl using assms(2,3,4) by (auto intro!: bexI [of _ t])
  have shape: "\<forall>c \<in> set pl. (\<exists>x. c = DEL x) \<or> (\<exists>x v. c = SET x v \<and> x \<noteq> CACHE_PREFIX @ k)"
    unfolding pl by (auto simp: TAGS_PREFIX_def CACHE_PREFIX_def)
  show ?thesis using apply_cmds_absent [OF shape] del by simp
qed

lemma get_miss_when_absent:
  assumes "map_of (redis s) (CACHE_PREFIX @ k) = None" and "pendingSets s k = None"
  shows "fst (get ev k ts s) = Returned None"
proof (cases "get_fails ev (CACHE_PREFIX @ k)")
  case True
  then have "fst (get_body ev k ts s) = Thrown ConnectionError"
    using assms by (simp add: get_body_def Let_def ensureConnected_fields readClient_get_def)
  then show ?thesis by (rule get_miss_on_throw)
next
  case False
  then have "fst (get_body ev k ts s) = Returned None"
    using assms by (simp add: get_body_def Let_def ensureConnected_fields readClient_get_def
        redis_get_def live_def)
  then show ?thesis by (rule get_result_of_body)
qed

lemma members_readable_tagTimestamps: "members_readable ev (s\<lparr>tagTimestamps := m\<rparr>) = members_readable ev s"
  by (rule ext) (simp add: members_readable_def readClient_smembers_tagTimestamps)

lemma members_readable_ensureConnected: "members_readable ev (ensureConnected ev' s) = members_readable ev s"
  by (rule ext) (simp add: members_readable_def readClient_smembers_def ensureConnected_fields)

lemma invalidate_loop_timestamps:
  "tagTimestamps (snd (invalidate_loop ev tags p s)) t =
     (if t \<in> set (takeWhile (members_readable ev s) tags) then Some (Some (now ev)) else tagTimestamps s t)"
proof (induction ev tags p s rule: invalidate_loop.induct)
  case (1 ev pipeline s)
  then show ?case by simp
next
  case (2 ev tag tags pipeline s)
  show ?case
  proof (cases "readClient_smembers ev s (TAGS_PREFIX @ tag)")
    case (Inl e)
    then show ?thesis by (simp add: members_readable_def)
  next
    case (Inr ms)
    then have r: "members_readable ev s tag" by (simp add: members_readable_def)
    show ?thesis using 2[OF refl Inr] Inr r
      by (simp add: members_readable_tagTimestamps)
  qed
qed

lemma invalidate_loop_result:
  "isl (fst (invalidate_loop ev tags p s)) = (takeWhile (members_readable ev s) tags \<noteq> tags)"
proof (induction ev tags p s rule: invalidate_loop.induct)
  case (1 ev pipeline s)
  then show ?case by simp
next
  case (2 ev tag tags pipeline s)
  show ?case
  proof (cases "readClient_smembers ev s (TAGS_PREFIX @ tag)")
    case (Inl e)
    then show ?thesis by (simp add: members_readable_def)
  next
    case (Inr ms)
    then have r: "members_readable ev s tag" by (simp add: members_readable_def)
    show ?thesis using 2[OF refl Inr] Inr r
      by (simp add: members_readable_tagTimestamps)
  qed
qed

lemma updateTags_timestamps:
  "tagTimestamps (snd (updateTags ev tags d s)) t =
     (if t \<in> set (takeWhile (members_readable ev s) tags) then Some (Some (now ev)) else tagTimestamps s t)"
proof -
  let ?s = "ensureConnected ev s"
  obtain r s1 where l: "invalidate_loop ev tags [] ?s = (r, s1)"
    by (cases "invalidate_loop ev tags [] ?s")
  have "tagTimestamps (snd (updateTags_body ev tags d s)) = tagTimestamps s1"
    using l by (simp add: updateTags_body_def Let_def pipeline_exec_fields split: sum.splits)
  moreover have "tagTimestamps s1 t =
     (if t \<in> set (takeWhile (members_readable ev s) tags) then Some (Some (now ev)) else tagTimestamps s t)"
    using invalidate_loop_timestamps [of ev tags "[]" ?s t] l
    by (simp add: members_readable_ensureConnected ensureConnected_fields)
  ultimately show ?thesis by (simp add: updateTags_state)
qed

text \<open>
  C2. When \<^verbatim>\<open>updateTags(tags)\<close> has run without an internal failure, \<open>t\<close> is one of
  the tags and the entry key of \<open>k\<close> was in the member set of \<open>t\<close> when the call read it,
  the next \<^verbatim>\<open>get(k, ts)\<close> returns \<^verbatim>\<open>undefined\<close>, in any environment (no write to \<open>k\<close>
  being in flight). After \<^verbatim>\<open>updateTags([t])\<close> the member-set record of \<open>t\<close> is gone too.
\<close>

theorem invalidated_members_miss:
  assumes ok: "fst (updateTags_body ev tags d s) = Returned ()"
      and t: "t \<in> set tags"
      and ms: "redis_smembers (store_time ev) (redis s) (TAGS_PREFIX @ t) = Inr ms"
      and k: "CACHE_PREFIX @ k \<in> set ms"
      and idle: "pendingSets s k = None"
  shows "fst (get ev' k ts (snd (updateTags ev tags d s))) = Returned None \<and>
         (tags = [t] \<longrightarrow> map_of (redis (snd (updateTags ev tags d s))) (TAGS_PREFIX @ t) = None)"
proof -
  let ?s = "ensureConnected ev s"
  obtain r s1 where l: "invalidate_loop ev tags [] ?s = (r, s1)"
    by (cases "invalidate_loop ev tags [] ?s")
  from ok l obtain pl where r: "r = Inr pl"
    by (cases r) (simp_all add: updateTags_body_def Let_def)
  from ok l r have ex: "exec_fails ev = None"
    by (cases "exec_fails ev") (simp_all add: updateTags_body_def Let_def pipeline_exec_def)
  have s1: "redis s1 = redis s" "pendingSets s1 = pendingSets s"
    using invalidate_loop_fields [of ev tags "[]" ?s] l by (simp_all add: ensureConnected_fields)
  have after: "redis (snd (updateTags ev tags d s)) = apply_cmds (store_time ev) pl (redis s)"
    "pendingSets (snd (updateTags ev tags d s)) = pendingSets s"
    using l r ex s1 by (simp_all add: updateTags_state updateTags_body_def Let_def pipeline_exec_def)
  have "\<not> isl (fst (invalidate_loop ev tags [] ?s))" using l r by simp
  then have "takeWhile (members_readable ev ?s) tags = tags" by (simp add: invalidate_loop_result)
  then have "members_readable ev ?s t" using t by (simp add: takeWhile_eq_all_conv)
  then have rd: "readClient_smembers ev ?s (TAGS_PREFIX @ t) = Inr ms"
    using ms by (simp add: members_readable_def readClient_smembers_def ensureConnected_fields split: if_splits)
  have l': "invalidate_loop ev tags [] ?s = (Inr pl, s1)" using l r by simp
  have "map_of (redis (snd (updateTags ev tags d s))) (CACHE_PREFIX @ k) = None"
    unfolding after by (rule invalidation_deletes [OF l' t rd k])
  then have miss: "fst (get ev' k ts (snd (updateTags ev tags d s))) = Returned None"
    by (rule get_miss_when_absent) (simp add: after idle)
  have "map_of (redis (snd (updateTags ev tags d s))) (TAGS_PREFIX @ t) = None" if one: "tags = [t]"
  proof -
    have pl: "pl = map DEL ms @ [DEL (TAGS_PREFIX @ t),
               SET (TAGS_PREFIX @ t @ '':timestamp'') (number_toString (now ev))]"
      using invalidate_loop_success [OF l'] rd one by simp
    show ?thesis unfolding after
      by (rule apply_cmds_absent) (auto simp: pl)
  qed
  with miss show ?thesis by blast
qed

text \<open>The witness: one entry tagged \<^verbatim>\<open>wines\<close>, invalidated at time 5 and read at time 9.\<close>

theorem invalidated_members_miss_witness:
  "fst (updateTags_body (quiet 5) [''wines''] None
         (init [(''nextjs:cache:w1'', Str ''x'', None),
                (''nextjs:tags:wines'', Members [''nextjs:cache:w1''], None)])) = Returned () \<and>
   redis_smembers 5 [(''nextjs:cache:w1'', Str ''x'', None),
                (''nextjs:tags:wines'', Members [''nextjs:cache:w1''], None)] (TAGS_PREFIX @ ''wines'')
     = Inr [CACHE_PREFIX @ ''w1''] \<and>
   fst (get (quiet 9) ''w1'' [''wines'']
         (snd (updateTags (quiet 5) [''wines''] None
           (init [(''nextjs:cache:w1'', Str ''x'', None),
                  (''nextjs:tags:wines'', Members [''nextjs:cache:w1''], None)])))) = Returned None \<and>
   map_of (redis (snd (updateTags (quiet 5) [''wines''] None
           (init [(''nextjs:cache:w1'', Str ''x'', None),
                  (''nextjs:tags:wines'', Members [''nextjs:cache:w1''], None)]))))
     (TAGS_PREFIX @ ''wines'') = None"
proof -
  let ?st = "[(''nextjs:cache:w1'', Str ''x'', None),
              (''nextjs:tags:wines'', Members [''nextjs:cache:w1''], None)]"
  have ok: "fst (updateTags_body (quiet 5) [''wines''] None (init ?st)) = Returned ()"
    by (simp add: handler_defs)
  have ms: "redis_smembers (store_time (quiet 5)) (redis (init ?st)) (TAGS_PREFIX @ ''wines'')
     = Inr [CACHE_PREFIX @ ''w1'']"
    by (simp add: handler_defs)
  have tm: "''wines'' \<in> set [''wines'']" and km: "CACHE_PREFIX @ ''w1'' \<in> set [CACHE_PREFIX @ ''w1'']"
    by simp_all
  have idle: "pendingSets (init ?st) ''w1'' = None" by (simp add: init_def)
  from invalidated_members_miss [OF ok tm ms km idle, where ?ev' = "quiet 9" and ts = "[''wines'']"]
  have "fst (get (quiet 9) ''w1'' [''wines''] (snd (updateTags (quiet 5) [''wines''] None (init ?st)))) = Returned None \<and>
        map_of (redis (snd (updateTags (quiet 5) [''wines''] None (init ?st)))) (TAGS_PREFIX @ ''wines'') = None"
    by simp
  with ok ms show ?thesis by (simp add: quiet_def init_def)
qed

subsection \<open>A failed invalidation\<close>

text \<open>
  C4 as stated fails: when \<^verbatim>\<open>updateTags(["a", "b"])\<close> cannot read the member set of
  \<^verbatim>\<open>b\<close> the body throws, and \<^verbatim>\<open>getExpiration(["a"])\<close> has changed from 0 to the time of
  the call.
\<close>

theorem failed_update_changes_timestamps:
  "fst (updateTags_body ((quiet 7)\<lparr>smembers_fails := (\<lambda>k. k = ''nextjs:tags:b'')\<rparr>)
         [''a'', ''b''] None (init [])) = Thrown ConnectionError \<and>
   getExpiration [''a''] (init []) = 0 \<and>
   getExpiration [''a''] (snd (updateTags ((quiet 7)\<lparr>smembers_fails := (\<lambda>k. k = ''nextjs:tags:b'')\<rparr>)
         [''a'', ''b''] None (init []))) = 7"
  by (simp add: handler_defs)

text \<open>
  C4 (amended). When \<^verbatim>\<open>updateTags\<close> fails internally it returns normally, and
  \<open>tagTimestamps\<close> is not restored: every tag the loop reached before the failure maps
  to the time of the call (all the tags when it is the pipeline that failed), and the
  other tags keep what they had. When it is the read of a member set that failed, no
  pipeline was given to the store and the store is unchanged.
\<close>

theorem failed_update_keeps_new_timestamps:
  assumes "fst (updateTags_body ev tags d s) = Thrown e"
  shows "fst (updateTags ev tags d s) = Returned () \<and>
         (\<forall>t. tagTimestamps (snd (updateTags ev tags d s)) t =
            (if t \<in> set (takeWhile (members_readable ev s) tags) then Some (Some (now ev))
             else tagTimestamps s t)) \<and>
         (if takeWhile (members_readable ev s) tags = tags then exec_fails ev \<noteq> None
          else redis (snd (updateTags ev tags d s)) = redis s \<and>
               batches (snd (updateTags ev tags d s)) = batches s)"
proof -
  let ?s = "ensureConnected ev s"
  define processed where "processed = takeWhile (members_readable ev s) tags"
  obtain r s1 where l: "invalidate_loop ev tags [] ?s = (r, s1)"
    by (cases "invalidate_loop ev tags [] ?s")
  have res: "isl r = (processed \<noteq> tags)"
    using invalidate_loop_result [of ev tags "[]" ?s] l
    unfolding processed_def members_readable_ensureConnected by simp
  have s1: "redis s1 = redis s" "batches s1 = batches s"
    using invalidate_loop_fields [of ev tags "[]" ?s] l by (simp_all add: ensureConnected_fields)
  have last: "if processed = tags then exec_fails ev \<noteq> None
          else redis (snd (updateTags ev tags d s)) = redis s \<and>
               batches (snd (updateTags ev tags d s)) = batches s"
  proof (cases r)
    case (Inl x)
    with res have "processed \<noteq> tags" by simp
    moreover have "snd (updateTags ev tags d s) = s1"
      using l Inl by (simp add: updateTags_state updateTags_body_def Let_def)
    ultimately show ?thesis using s1 by simp
  next
    case (Inr pl)
    with res have "processed = tags" by simp
    moreover have "exec_fails ev \<noteq> None"
      using l Inr assms
      by (cases "exec_fails ev") (simp_all add: updateTags_body_def Let_def pipeline_exec_def)
    ultimately show ?thesis by simp
  qed
  have "\<forall>t. tagTimestamps (snd (updateTags ev tags d s)) t =
            (if t \<in> set (takeWhile (members_readable ev s) tags) then Some (Some (now ev))
             else tagTimestamps s t)"
    by (simp add: updateTags_timestamps)
  with last show ?thesis unfolding processed_def
    using updateTags_returns [of ev tags d s] by blast
qed

text \<open>The witness: the pipeline of an invalidation of two tags is rejected.\<close>

theorem failed_update_keeps_new_timestamps_witness:
  "fst (updateTags_body ((quiet 7)\<lparr>exec_fails := Some 0\<rparr>) [''a'', ''b''] None (init [])) =
     Thrown ConnectionError \<and>
   fst (updateTags ((quiet 7)\<lparr>exec_fails := Some 0\<rparr>) [''a'', ''b''] None (init [])) = Returned () \<and>
   tagTimestamps (snd (updateTags ((quiet 7)\<lparr>exec_fails := Some 0\<rparr>) [''a'', ''b''] None (init []))) ''a'' =
     Some (Some 7) \<and>
   tagTimestamps (snd (updateTags ((quiet 7)\<lparr>exec_fails := Some 0\<rparr>) [''a'', ''b''] None (init []))) ''b'' =
     Some (Some 7) \<and>
   tagTimestamps (snd (updateTags ((quiet 7)\<lparr>exec_fails := Some 0\<rparr>) [''a'', ''b''] None (init []))) ''c'' =
     None"
proof -
  let ?ev = "(quiet 7)\<lparr>exec_fails := Some 0\<rparr>"
  have h: "fst (updateTags_body ?ev [''a'', ''b''] None (init [])) = Thrown ConnectionError"
    by (simp add: handler_defs)
  have a: "members_readable ?ev (init []) ''a''" and b: "members_readable ?ev (init []) ''b''"
    by (simp_all add: handler_defs)
  have i: "tagTimestamps (init []) ''c'' = None" "now ?ev = 7"
    by (simp_all add: init_def quiet_def)
  from failed_update_keeps_new_timestamps [OF h] a b i h show ?thesis
    by simp
qed

subsection \<open>The invalidation timestamps\<close>









subsection \<open>The batch of a write\<close>

lemma tag_cmds_eq:
  "tag_cmds pipeline key ex tags =
     pipeline @ concat (map (\<lambda>tag. [SADD (TAGS_PREFIX @ tag) key,
                                     EXPIRE (TAGS_PREFIX @ tag) (ex + 60)]) tags)"
  by (induction tags arbitrary: pipeline) (simp_all add: Let_def)

lemma pipeline_exec_batches: "batches (snd (pipeline_exec ev p s)) = batches s @ [p]"
  by (simp add: pipeline_exec_def split: option.splits)

lemma set_body_batches:
  "read_all (e_value e) [] = Inr chunks \<Longrightarrow>
   batches (snd (set_body ev k (Resolves e) s)) = batches s @
     [tag_cmds [SETEX (CACHE_PREFIX @ k) (e_expire e) (serialize e (concat chunks))]
        (CACHE_PREFIX @ k) (e_expire e) (e_tags e)]"
  by (simp add: set_body_def Let_def pipeline_exec_batches ensureConnected_fields)

lemma set_op_batches:
  "batches (snd (set_op ev k pe s)) =
   batches (snd (set_body ev k pe
     (s\<lparr>promises := Suc (promises s), pendingSets := (pendingSets s)(k \<mapsto> promises s)\<rparr>)))"
  by (simp add: set_op_unfold Let_def withSpan_def split: prod.splits)

text \<open>
  C5. When the entry's promise resolves and its stream is read to the end, \<^verbatim>\<open>set\<close>
  gives the store exactly one pipeline: the \<^verbatim>\<open>SETEX\<close> of the serialized entry at the
  prefixed key with the entry's \<^verbatim>\<open>expire\<close> as time to live, followed, for every tag of
  the entry in order, by the \<^verbatim>\<open>SADD\<close> of the prefixed key to the tag's set and the
  \<^verbatim>\<open>EXPIRE\<close> of that set at \<^verbatim>\<open>expire + 60\<close>.
\<close>

theorem set_batch_contents:
  assumes "read_all (e_value e) [] = Inr chunks"
  shows "batches (snd (set_op ev cacheKey (Resolves e) s)) = batches s @
     [SETEX (CACHE_PREFIX @ cacheKey) (e_expire e) (serialize e (concat chunks)) #
      concat (map (\<lambda>tag. [SADD (TAGS_PREFIX @ tag) (CACHE_PREFIX @ cacheKey),
                          EXPIRE (TAGS_PREFIX @ tag) (e_expire e + 60)]) (e_tags e))]"
  using set_body_batches [OF assms] by (simp add: set_op_batches tag_cmds_eq)

text \<open>The witness: the entry \<open>wine\<close>, written under the key \<^verbatim>\<open>w1\<close>.\<close>

theorem set_batch_contents_witness:
  "read_all (e_value wine) [] = Inr [[0x61, 0xFF], [0x00]] \<and>
   batches (snd (set_op (quiet 0) ''w1'' (Resolves wine) (init []))) =
     [[SETEX ''nextjs:cache:w1'' 3600 (serialize wine [0x61, 0xFF, 0x00]),
       SADD ''nextjs:tags:wines'' ''nextjs:cache:w1'',
       EXPIRE ''nextjs:tags:wines'' 3660]]"
proof -
  have r: "read_all (e_value wine) [] = Inr [[0x61, 0xFF], [0x00]]"
    by (simp add: wine_def)
  have "batches (snd (set_op (quiet 0) ''w1'' (Resolves wine) (init []))) = batches (init []) @
     [SETEX (CACHE_PREFIX @ ''w1'') (e_expire wine)
        (serialize wine (concat [[0x61, 0xFF], [0x00]])) #
      concat (map (\<lambda>tag. [SADD (TAGS_PREFIX @ tag) (CACHE_PREFIX @ ''w1''),
                          EXPIRE (TAGS_PREFIX @ tag) (e_expire wine + 60)]) (e_tags wine))]"
    by (rule set_batch_contents [OF r])
  then show ?thesis using r
    by (simp add: init_def CACHE_PREFIX_def TAGS_PREFIX_def wine_def)
qed

subsection \<open>Base64 decodes what it encoded\<close>

lemma sextets:
  assumes "n < 16777216"
  shows "(n div 262144) mod 64 * 262144 + (n div 4096) mod 64 * 4096 + (n div 64) mod 64 * 64 + n mod 64 = (n::nat)"
proof -
  define q1 r0 where "q1 = n div 64" and "r0 = n mod 64"
  define q2 r1 where "q2 = q1 div 64" and "r1 = q1 mod 64"
  define q3 r2 where "q3 = q2 div 64" and "r2 = q2 mod 64"
  have a: "n = q1 * 64 + r0" by (simp add: q1_def r0_def)
  have b: "q1 = q2 * 64 + r1" by (simp add: q2_def r1_def)
  have c: "q2 = q3 * 64 + r2" by (simp add: q3_def r2_def)
  have e: "n div 4096 = q2" "n div 262144 = q3"
    by (simp_all add: q3_def q2_def q1_def div_mult2_eq [symmetric])
  have d: "q3 < 64" using assms e(2) by simp
  then have f: "q3 mod 64 = q3" by simp
  have "q3 * 262144 + r2 * 4096 + r1 * 64 + r0 = n"
    using a b c by simp
  then show ?thesis
    unfolding e f by (simp add: r2_def r1_def r0_def q1_def)
qed

lemma of_nat_byte: "m mod 256 = unat (x :: byte) \<Longrightarrow> of_nat m = x"
proof -
  assume "m mod 256 = unat x"
  then have "unat (of_nat m :: byte) = unat x" by (simp add: unat_of_nat)
  then show ?thesis by (simp only: word_unat_eq_iff)
qed

lemma unbase64_alphabet: "list_all (\<lambda>j. unbase64 (b64_alphabet ! j) = Some j \<and> b64_alphabet ! j \<noteq> CHR ''='') [0..<64]"
  by (simp add: upt_rec [of _ "numeral n" for n] b64_alphabet_def unbase64_def)

lemma unbase64_b64_char: "unbase64 (b64_char i) = Some (i mod 64)"
  using unbase64_alphabet by (simp add: list_all_iff b64_char_def)

lemma b64_char_not_pad: "b64_char i \<noteq> CHR ''=''"
  using unbase64_alphabet by (simp add: list_all_iff b64_char_def)

lemma of_nat_small: "a < 256 \<Longrightarrow> (k * 256 + a) mod 256 = unat (of_nat a :: byte)"
  by (simp add: unat_of_nat)

lemma decode_three:
  assumes "a < 256" "b < 256" "c < 256" and n: "n = a * 65536 + b * 256 + c"
  shows "[of_nat (((n div 262144) mod 64 * 262144 + (n div 4096) mod 64 * 4096
                   + (n div 64) mod 64 * 64 + n mod 64) div 65536),
          of_nat (((n div 262144) mod 64 * 262144 + (n div 4096) mod 64 * 4096
                   + (n div 64) mod 64 * 64 + n mod 64) div 256),
          of_nat ((n div 262144) mod 64 * 262144 + (n div 4096) mod 64 * 4096
                   + (n div 64) mod 64 * 64 + n mod 64)]
         = [of_nat a, of_nat b, of_nat c :: byte]"
proof -
  have lt: "n < 16777216" using assms by simp
  have 1: "n div 65536 = a" using assms by simp
  have 2: "n div 256 = a * 256 + b" using assms by simp
  have 3: "n = (a * 256 + b) * 256 + c" using n by simp
  have "(of_nat (a * 256 + b) :: byte) = of_nat b"
    by (rule of_nat_byte) (rule of_nat_small [OF assms(2)])
  moreover have "(of_nat n :: byte) = of_nat c"
    unfolding 3 by (rule of_nat_byte) (rule of_nat_small [OF assms(3)])
  ultimately show ?thesis
    unfolding sextets [OF lt] 1 2 by simp
qed

lemma base64_groups_decode:
  "\<forall>x \<in> set ns. x < 256 \<Longrightarrow>
   decode_groups (List.map_filter unbase64 (takeWhile (\<lambda>c. c \<noteq> CHR ''='') (base64_groups ns)))
     = map of_nat ns"
proof (induction ns rule: base64_groups.induct)
  case (1 a b c r)
  then have ab: "a < 256" "b < 256" "c < 256" and r: "\<forall>x \<in> set r. x < 256" by simp_all
  have "decode_groups (List.map_filter unbase64 (takeWhile (\<lambda>c. c \<noteq> CHR ''='') (base64_groups (a # b # c # r))))
      = [of_nat a, of_nat b, of_nat c] @ decode_groups (List.map_filter unbase64 (takeWhile (\<lambda>c. c \<noteq> CHR ''='') (base64_groups r)))"
    using decode_three [OF ab refl]
    by (simp add: Let_def b64_char_not_pad map_filter_simps unbase64_b64_char)
  with "1.IH" [OF r] show ?case by simp
next
  case (2 a b)
  then have ab: "a < 256" "b < 256" by simp_all
  have z: "(0::nat) < 256" by simp
  show ?case
    using decode_three [OF ab z refl]
    by (simp add: Let_def b64_char_not_pad map_filter_simps unbase64_b64_char)
next
  case (3 a)
  then have a: "a < 256" by simp
  have z: "(0::nat) < 256" by simp
  show ?case
    using decode_three [OF a z z refl]
    by (simp add: Let_def b64_char_not_pad map_filter_simps unbase64_b64_char)
next
  case 4
  then show ?case by (simp add: map_filter_simps)
qed

lemma base64_round_trip: "from_base64 (toString_base64 data) = data"
proof -
  have "unat x < 256" for x :: byte
    using unsigned_less [of x] by simp
  then have "\<forall>x \<in> set (map unat data). x < 256"
    by auto
  then have "from_base64 (toString_base64 data) = map of_nat (map unat data)"
    unfolding from_base64_def toString_base64_def by (rule base64_groups_decode)
  then show ?thesis by (simp add: map_idI)
qed

subsection \<open>The JSON parser reads what \<^verbatim>\<open>JSON.stringify\<close> wrote\<close>

lemma digit_val_digit_char: "digit_val (digit_char d) = Some (d mod 10)"
proof -
  have "(48 + d mod 10) mod 256 = 48 + d mod 10"
    by (rule mod_less) (simp add: less_le_trans [OF add_strict_left_mono [OF mod_less_divisor]])
  then show ?thesis by (simp add: digit_val_def digit_char_def)
qed

lemma digit_val_layout:
  "digit_val c = Some d \<Longrightarrow>
     \<not> is_ws c \<and> c \<noteq> CHR 0x22 \<and> c \<noteq> CHR ''['' \<and> c \<noteq> CHR '']'' \<and> c \<noteq> CHR ''{'' \<and>
     c \<noteq> CHR ''}'' \<and> c \<noteq> CHR ''t'' \<and> c \<noteq> CHR ''f'' \<and> c \<noteq> CHR ''n'' \<and> c \<noteq> CHR ''-'' \<and>
     c \<noteq> CHR '','' \<and> c \<noteq> CHR '':''"
  by (auto simp: digit_val_def is_ws_def Let_def split: if_splits)

lemma read_digits_stop: "number_end r \<Longrightarrow> read_digits acc r = (acc, r)"
  by (cases r) (simp_all add: number_end_def)

lemma read_digits_digits:
  "read_digits acc (digits n @ r) = read_digits (acc * 10 ^ length (digits n) + n) r"
proof (induction n arbitrary: acc r rule: digits.induct)
  case (1 n)
  show ?case
  proof (cases "n < 10")
    case True
    then show ?thesis by (simp add: digits.simps [of n] digit_val_digit_char)
  next
    case False
    then have d: "digits n = digits (n div 10) @ [digit_char n]"
      by (simp add: digits.simps [of n])
    have "read_digits acc (digits n @ r) =
          read_digits (acc * 10 ^ length (digits (n div 10)) + n div 10) (digit_char n # r)"
      using "1.IH" [OF False, of acc "digit_char n # r"] by (simp add: d)
    also have "\<dots> = read_digits ((acc * 10 ^ length (digits (n div 10)) + n div 10) * 10 + n mod 10) r"
      by (simp add: digit_val_digit_char)
    also have "(acc * 10 ^ length (digits (n div 10)) + n div 10) * 10 + n mod 10
               = acc * 10 ^ length (digits n) + n"
      by (simp add: d algebra_simps)
    finally show ?thesis .
  qed
qed

lemma digits_head: "\<exists>d cs. digits n = digit_char d # cs \<and> (d mod 10 = 0 \<longrightarrow> n = 0 \<and> cs = [])"
proof (induction n rule: digits.induct)
  case (1 n)
  show ?case
  proof (cases "n < 10")
    case True
    then have "digits n = digit_char n # [] \<and> (n mod 10 = 0 \<longrightarrow> n = 0 \<and> [] = ([]::string))"
      by (simp add: digits.simps [of n])
    then show ?thesis by (intro exI)
  next
    case False
    from "1.IH" [OF False] obtain d cs where
      h: "digits (n div 10) = digit_char d # cs" "d mod 10 = 0 \<longrightarrow> n div 10 = 0 \<and> cs = []"
      by auto
    from False have "n div 10 \<noteq> 0" by simp
    with h have "d mod 10 \<noteq> 0" by blast
    with h(1) False show ?thesis by (auto simp: digits.simps [of n])
  qed
qed

lemma parse_nat_digits:
  assumes "number_end r"
  shows "parse_nat (digits n @ r) = Some (n, r)"
proof -
  obtain d cs where h: "digits n = digit_char d # cs" "d mod 10 = 0 \<longrightarrow> n = 0 \<and> cs = []"
    using digits_head [of n] by auto
  show ?thesis
  proof (cases "d mod 10 = 0")
    case True
    with h assms show ?thesis
      by (simp add: parse_nat_def digit_val_digit_char)
  next
    case False
    have "read_digits 0 (digits n @ r) = (n, r)"
      using read_digits_stop [OF assms] by (simp add: read_digits_digits)
    then have "read_digits 0 (digit_char d # cs @ r) = (n, r)" using h(1) by simp
    with False h(1) assms show ?thesis
      by (simp add: parse_nat_def digit_val_digit_char del: read_digits.simps)
  qed
qed

lemma parse_number_toString:
  assumes "number_end r"
  shows "parse_number (number_toString n @ r) = Some (JNum n, r)"
proof (cases "n < 0")
  case True
  then show ?thesis
    by (simp add: parse_number_def number_toString_def parse_nat_digits [OF assms])
next
  case False
  obtain d cs where h: "digits (nat n) = digit_char d # cs"
    using digits_head [of "nat n"] by auto
  have "digit_char d \<noteq> CHR ''-''"
    using digit_val_layout [OF digit_val_digit_char] by blast
  moreover have "parse_nat (digit_char d # cs @ r) = Some (nat n, r)"
    using parse_nat_digits [OF assms, of "nat n"] h by simp
  ultimately show ?thesis using False h
    by (simp add: parse_number_def number_toString_def)
qed

lemma hex_val_table: "list_all (\<lambda>d. hex_val (''0123456789abcdef'' ! d) = Some d) [0..<16]"
  by (simp add: upt_rec [of _ "numeral n" for n] hex_val_def)

lemma hex_val_hex_char: "hex_val (hex_char d) = Some (d mod 16)"
  using hex_val_table by (simp add: list_all_iff hex_char_def)

lemma hex_val_zero: "hex_val (CHR ''0'') = Some 0"
  by (simp add: hex_val_def)

lemma utf8_control:
  assumes "(of_char c :: nat) < 32"
  shows "utf8 (0 * 4096 + 0 * 256 + ((of_char c :: nat) div 16 mod 16) * 16 + (of_char c :: nat) mod 16) = [c]"
proof -
  have "(of_char c :: nat) div 16 mod 16 = (of_char c :: nat) div 16" using assms by simp
  then have "0 * 4096 + 0 * 256 + ((of_char c :: nat) div 16 mod 16) * 16 + (of_char c :: nat) mod 16
             = (of_char c :: nat)" by simp
  then show ?thesis using assms by (simp add: utf8_def)
qed

lemma parse_chars_plain:
  "c \<noteq> CHR 0x22 \<Longrightarrow> c \<noteq> CHR 0x5C \<Longrightarrow> \<not> (of_char c :: nat) < 32 \<Longrightarrow>
   parse_chars (c # rest) =
     (case parse_chars rest of None \<Rightarrow> None | Some (s, r) \<Rightarrow> Some (c # s, r))"
  by simp

lemma parse_chars_short:
  "parse_chars (CHR 0x5C # CHR 0x22 # rest) =
     (case parse_chars rest of None \<Rightarrow> None | Some (s, r) \<Rightarrow> Some (CHR 0x22 # s, r))"
  "parse_chars (CHR 0x5C # CHR 0x5C # rest) =
     (case parse_chars rest of None \<Rightarrow> None | Some (s, r) \<Rightarrow> Some (CHR 0x5C # s, r))"
  "parse_chars (CHR 0x5C # CHR ''b'' # rest) =
     (case parse_chars rest of None \<Rightarrow> None | Some (s, r) \<Rightarrow> Some (CHR 0x08 # s, r))"
  "parse_chars (CHR 0x5C # CHR ''f'' # rest) =
     (case parse_chars rest of None \<Rightarrow> None | Some (s, r) \<Rightarrow> Some (CHR 0x0C # s, r))"
  "parse_chars (CHR 0x5C # CHR ''n'' # rest) =
     (case parse_chars rest of None \<Rightarrow> None | Some (s, r) \<Rightarrow> Some (CHR 0x0A # s, r))"
  "parse_chars (CHR 0x5C # CHR ''r'' # rest) =
     (case parse_chars rest of None \<Rightarrow> None | Some (s, r) \<Rightarrow> Some (CHR 0x0D # s, r))"
  "parse_chars (CHR 0x5C # CHR ''t'' # rest) =
     (case parse_chars rest of None \<Rightarrow> None | Some (s, r) \<Rightarrow> Some (CHR 0x09 # s, r))"
  by simp_all

lemma parse_chars_unicode:
  "parse_chars (CHR 0x5C # CHR ''u'' # h1 # h2 # h3 # h4 # rest) =
     (case (hex_val h1, hex_val h2, hex_val h3, hex_val h4) of
        (Some a, Some b, Some c', Some d) \<Rightarrow>
          (case parse_chars rest of
             None \<Rightarrow> None
           | Some (s, r) \<Rightarrow> Some (utf8 (a * 4096 + b * 256 + c' * 16 + d) @ s, r))
      | _ \<Rightarrow> None)"
  by simp

lemma parse_chars_escape:
  "parse_chars (escape_char c @ rest) =
     (case parse_chars rest of None \<Rightarrow> None | Some (s, r) \<Rightarrow> Some (c # s, r))"
proof -
  consider "c = CHR 0x22" | "c = CHR 0x5C" | "c = CHR 0x08" | "c = CHR 0x0C" | "c = CHR 0x0A"
    | "c = CHR 0x0D" | "c = CHR 0x09"
    | "c \<noteq> CHR 0x22" "c \<noteq> CHR 0x5C" "c \<noteq> CHR 0x08" "c \<noteq> CHR 0x0C" "c \<noteq> CHR 0x0A"
      "c \<noteq> CHR 0x0D" "c \<noteq> CHR 0x09" "(of_char c :: nat) < 32"
    | "c \<noteq> CHR 0x22" "c \<noteq> CHR 0x5C" "c \<noteq> CHR 0x08" "c \<noteq> CHR 0x0C" "c \<noteq> CHR 0x0A"
      "c \<noteq> CHR 0x0D" "c \<noteq> CHR 0x09" "\<not> (of_char c :: nat) < 32"
    by blast
  then show ?thesis
  proof cases
    case 8
    then have e: "escape_char c = [CHR 0x5C, CHR ''u'', CHR ''0'', CHR ''0'',
         hex_char ((of_char c :: nat) div 16), hex_char (of_char c)]"
      by (simp add: escape_char_def)
    show ?thesis
      unfolding e using utf8_control [OF 8(8)]
      by (simp add: parse_chars_unicode hex_val_hex_char hex_val_zero del: parse_chars.simps
          split: option.splits)
  next
    case 9
    then have e: "escape_char c = [c]" by (simp add: escape_char_def)
    show ?thesis unfolding e using 9 by (simp add: parse_chars_plain del: parse_chars.simps)
  qed (clarsimp simp add: escape_char_def parse_chars_short simp del: parse_chars.simps)+
qed

lemma parse_chars_quote:
  "parse_chars (concat (map escape_char s) @ CHR 0x22 # r) = Some (s, r)"
  by (induction s) (simp_all add: parse_chars_escape del: parse_chars.simps, simp)

lemma skip_ws_keep: "\<not> is_ws c \<Longrightarrow> skip_ws (c # cs) = c # cs"
  by (simp add: skip_ws_def)

lemma value_end_number_end: "value_end r \<Longrightarrow> number_end r"
  by (cases r) (auto simp: value_end_def number_end_def digit_val_def)

lemma value_end_skip: "value_end r \<Longrightarrow> skip_ws r = r"
  by (cases r) (auto simp: value_end_def skip_ws_def is_ws_def)

lemma value_end_simps:
  "value_end (CHR '','' # r)" "value_end (CHR '']'' # r)" "value_end (CHR ''}'' # r)" "value_end []"
  by (simp_all add: value_end_def)

lemma quote_Cons: "quote s = CHR 0x22 # concat (map escape_char s) @ [CHR 0x22]"
  by (simp add: quote_def)

lemma stringify_head:
  "\<exists>c cs. JSON_stringify j = c # cs \<and> \<not> is_ws c \<and> c \<noteq> CHR '']'' \<and> c \<noteq> CHR ''}''"
proof (cases j)
  case (JNum n)
  obtain d cs where h: "digits (nat n) = digit_char d # cs"
    using digits_head [of "nat n"] by auto
  note lay = digit_val_layout [OF digit_val_digit_char, of d]
  show ?thesis
  proof (cases "n < 0")
    case True
    with JNum show ?thesis by (simp add: number_toString_def is_ws_def)
  next
    case False
    with JNum h lay show ?thesis by (simp add: number_toString_def)
  qed
qed (simp_all add: is_ws_def quote_def)

lemma parse_value_number:
  assumes "value_end r"
  shows "parse_value (Suc n) (number_toString k @ r) = Some (JNum k, r)"
proof -
  have p: "parse_number (number_toString k @ r) = Some (JNum k, r)"
    by (rule parse_number_toString [OF value_end_number_end [OF assms]])
  obtain d cs where h: "digits (nat k) = digit_char d # cs"
    using digits_head [of "nat k"] by auto
  note lay = digit_val_layout [OF digit_val_digit_char, of d]
  show ?thesis
  proof (cases "k < 0")
    case True
    then have t: "number_toString k @ r = CHR ''-'' # digits (nat (- k)) @ r"
      by (simp add: number_toString_def)
    show ?thesis using p unfolding t by (simp add: skip_ws_def is_ws_def)
  next
    case False
    then have t: "number_toString k @ r = digit_char d # cs @ r"
      using h by (simp add: number_toString_def)
    show ?thesis using p lay unfolding t by (simp add: skip_ws_keep)
  qed
qed

lemma parse_elems_join:
  assumes "\<And>x n r. x \<in> set xs \<Longrightarrow> length (JSON_stringify x) \<le> n \<Longrightarrow> value_end r \<Longrightarrow>
             parse_value n (JSON_stringify x @ r) = Some (x, r)"
      and "xs \<noteq> []"
      and "length (join '','' (map JSON_stringify xs)) < n"
  shows "parse_elems n (join '','' (map JSON_stringify xs) @ CHR '']'' # r) = Some (xs, r)"
  using assms
proof (induction xs arbitrary: n)
  case Nil
  then show ?case by simp
next
  case (Cons x xs)
  from Cons.prems(3) obtain m where n: "n = Suc m" by (cases n) simp_all
  show ?case
  proof (cases xs)
    case Nil
    have "length (JSON_stringify x) \<le> m" using Cons.prems(3) n Nil by simp
    then have "parse_value m (JSON_stringify x @ CHR '']'' # r) = Some (x, CHR '']'' # r)"
      using Cons.prems(1) [of x m "CHR '']'' # r"] by (simp add: value_end_simps)
    then show ?thesis using Nil n by (simp add: skip_ws_def is_ws_def)
  next
    case (Cons y ys)
    let ?rest = "join '','' (map JSON_stringify (y # ys)) @ CHR '']'' # r"
    have len: "length (JSON_stringify x) \<le> m" "length (join '','' (map JSON_stringify (y # ys))) < m"
      using Cons.prems(3) n Cons by simp_all
    have v: "parse_value m (JSON_stringify x @ CHR '','' # ?rest) = Some (x, CHR '','' # ?rest)"
      using Cons.prems(1) [of x m "CHR '','' # ?rest"] len(1) by (simp add: value_end_simps)
    have "parse_elems m ?rest = Some (y # ys, r)"
      using Cons.IH [of m] Cons.prems(1) len(2) Cons by simp
    then show ?thesis using v n Cons by (simp add: skip_ws_def is_ws_def)
  qed
qed

lemma join_two: "ys \<noteq> [] \<Longrightarrow> join sep (x # ys) = x @ sep @ join sep ys"
  by (cases ys) simp_all

lemma parse_members_join:
  assumes "\<And>k v n r. (k, v) \<in> set kvs \<Longrightarrow> length (JSON_stringify v) \<le> n \<Longrightarrow> value_end r \<Longrightarrow>
             parse_value n (JSON_stringify v @ r) = Some (v, r)"
      and "kvs \<noteq> []"
      and "length (join '','' (map (\<lambda>(k, v). quote k @ '':'' @ JSON_stringify v) kvs)) < n"
  shows "parse_members n (join '','' (map (\<lambda>(k, v). quote k @ '':'' @ JSON_stringify v) kvs)
                           @ CHR ''}'' # r) = Some (kvs, r)"
  using assms
proof (induction kvs arbitrary: n)
  case Nil
  then show ?case by simp
next
  case (Cons kv kvs)
  obtain k v where kv: "kv = (k, v)" by (cases kv)
  from Cons.prems(3) obtain m where n: "n = Suc m" by (cases n) simp_all
  let ?t = "\<lambda>(k, v). quote k @ '':'' @ JSON_stringify v"
  have key: "parse_chars (concat (map escape_char k) @ CHR 0x22 # CHR '':'' # t) = Some (k, CHR '':'' # t)" for t
    by (rule parse_chars_quote)
  show ?case
  proof (cases "kvs = []")
    case True
    have "length (JSON_stringify v) \<le> m" using Cons.prems(3) n True kv by simp
    then have "parse_value m (JSON_stringify v @ CHR ''}'' # r) = Some (v, CHR ''}'' # r)"
      using Cons.prems(1) [of k v m "CHR ''}'' # r"] kv by (simp add: value_end_simps)
    then show ?thesis using True n kv key
      by (simp add: skip_ws_def is_ws_def quote_Cons del: parse_chars.simps)
  next
    case False
    let ?rest = "join '','' (map ?t kvs) @ CHR ''}'' # r"
    have j: "join '','' (map ?t (kv # kvs)) = quote k @ '':'' @ JSON_stringify v @ '','' @ join '','' (map ?t kvs)"
      using False kv by (simp add: join_two)
    have len: "length (JSON_stringify v) \<le> m" "length (join '','' (map ?t kvs)) < m"
      using Cons.prems(3) n unfolding j by simp_all
    have v: "parse_value m (JSON_stringify v @ CHR '','' # ?rest) = Some (v, CHR '','' # ?rest)"
      using Cons.prems(1) [of k v m "CHR '','' # ?rest"] len(1) kv by (simp add: value_end_simps)
    have ih: "parse_members m ?rest = Some (kvs, r)"
    proof (rule Cons.IH)
      show "parse_value n (JSON_stringify v @ r) = Some (v, r)"
        if "(k, v) \<in> set kvs" "length (JSON_stringify v) \<le> n" "value_end r" for k v n r
        using Cons.prems(1) [of k v n r] that by simp
      show "kvs \<noteq> []" by (rule False)
      show "length (join '','' (map ?t kvs)) < m" by (rule len(2))
    qed
    show ?thesis unfolding j n using v ih key kv
      by (simp add: skip_ws_def is_ws_def quote_Cons del: parse_chars.simps)
  qed
qed

lemma join_head:
  assumes "xs \<noteq> []"
  shows "\<exists>c cs. join '','' (map JSON_stringify xs) = c # cs \<and> \<not> is_ws c \<and> c \<noteq> CHR '']''"
proof -
  obtain x ys where xs: "xs = x # ys" using assms by (cases xs) auto
  obtain c cs where h: "JSON_stringify x = c # cs" "\<not> is_ws c" "c \<noteq> CHR '']''"
    using stringify_head [of x] by auto
  show ?thesis
  proof (cases "ys = []")
    case True
    with xs h show ?thesis by simp
  next
    case False
    with xs h show ?thesis by (simp add: join_two)
  qed
qed

lemma members_head:
  assumes "kvs \<noteq> []"
  shows "\<exists>cs. join '','' (map (\<lambda>(k, v). quote k @ '':'' @ JSON_stringify v) kvs) = CHR 0x22 # cs"
proof -
  obtain kv ys where xs: "kvs = kv # ys" using assms by (cases kvs) auto
  obtain k v where kv: "kv = (k, v)" by (cases kv)
  show ?thesis
  proof (cases "ys = []")
    case True
    with xs kv show ?thesis by (simp add: quote_Cons)
  next
    case False
    with xs kv show ?thesis by (simp add: join_two quote_Cons)
  qed
qed

lemma parse_stringify:
  "length (JSON_stringify j) \<le> n \<Longrightarrow> value_end r \<Longrightarrow>
   parse_value n (JSON_stringify j @ r) = Some (j, r)"
proof (induction j arbitrary: n r)
  case JNull
  then obtain m where "n = Suc m" by (cases n) simp_all
  then show ?case by (simp add: skip_ws_def is_ws_def)
next
  case (JBool b)
  then obtain m where "n = Suc m" by (cases n) (simp_all split: if_splits)
  then show ?case by (simp add: skip_ws_def is_ws_def)
next
  case (JNum k)
  obtain c cs where "JSON_stringify (JNum k) = c # cs"
    using stringify_head [of "JNum k"] by auto
  with JNum.prems(1) obtain m where "n = Suc m" by (cases n) simp_all
  then show ?case using parse_value_number [OF JNum.prems(2)] by simp
next
  case (JStr s)
  then obtain m where "n = Suc m" by (cases n) (simp_all add: quote_Cons)
  then show ?case
    using parse_chars_quote [of s r]
    by (simp add: skip_ws_def is_ws_def quote_Cons del: parse_chars.simps)
next
  case (JArr xs)
  from JArr.prems(1) obtain m where n: "n = Suc m" by (cases n) simp_all
  show ?case
  proof (cases "xs = []")
    case True
    then show ?thesis using n by (simp add: skip_ws_def is_ws_def)
  next
    case False
    let ?body = "join '','' (map JSON_stringify xs)"
    obtain c cs where h: "?body = c # cs" "\<not> is_ws c" "c \<noteq> CHR '']''"
      using join_head [OF False] by auto
    have "length ?body < m" using JArr.prems(1) n by simp
    then have "parse_elems m (?body @ CHR '']'' # r) = Some (xs, r)"
      using JArr.IH False by (intro parse_elems_join) auto
    then have "parse_elems m (c # cs @ CHR '']'' # r) = Some (xs, r)" using h(1) by simp
    then show ?thesis using n h
      by (simp add: skip_ws_keep is_ws_def)
  qed
next
  case (JObj kvs)
  from JObj.prems(1) obtain m where n: "n = Suc m" by (cases n) simp_all
  let ?t = "\<lambda>(k, v). quote k @ '':'' @ JSON_stringify v"
  show ?case
  proof (cases "kvs = []")
    case True
    then show ?thesis using n by (simp add: skip_ws_def is_ws_def)
  next
    case False
    let ?body = "join '','' (map ?t kvs)"
    obtain cs where h: "?body = CHR 0x22 # cs"
      using members_head [OF False] by auto
    have "length ?body < m" using JObj.prems(1) n by simp
    moreover have "parse_value n (JSON_stringify v @ r) = Some (v, r)"
      if "(k, v) \<in> set kvs" "length (JSON_stringify v) \<le> n" "value_end r" for k v n r
      using JObj.IH [of "(k, v)" v n r] that by simp
    ultimately have "parse_members m (?body @ CHR ''}'' # r) = Some (kvs, r)"
      using False by (intro parse_members_join) auto
    then have "parse_members m (CHR 0x22 # cs @ CHR ''}'' # r) = Some (kvs, r)" using h by simp
    then show ?thesis using n h
      by (simp add: skip_ws_keep is_ws_def)
  qed
qed

lemma JSON_round_trip: "JSON_parse (JSON_stringify j) = Some j"
  using parse_stringify [of j "Suc (length (JSON_stringify j))" "[]"]
  by (simp add: JSON_parse_def value_end_simps skip_ws_def del: parse_value.simps)

lemma JSON_stringify_not_empty: "JSON_stringify j \<noteq> []"
  using stringify_head [of j] by auto

subsection \<open>The stored text\<close>

text \<open>
  The text \<^verbatim>\<open>set\<close> builds parses back to the document it serialized, and decoding the
  base64 text of its \<^verbatim>\<open>value\<close> member gives the bytes that were encoded.
\<close>

lemma serialize_round_trip:
  "JSON_parse (serialize e payload) = Some (document e payload) \<and>
   Buffer_from_base64 (js_field (document e payload) ''value'') = Inr payload"
proof -
  have "js_field (document e payload) ''value'' = Some (JStr (toString_base64 payload))"
    by (simp add: js_field_def document_def split: option.splits)
  then show ?thesis
    by (simp add: serialize_def JSON_round_trip Buffer_from_base64_def base64_round_trip)
qed

subsection \<open>Freshness at read time\<close>

lemma js_field_JNull: "js_field JNull name = None"
  by (simp add: js_field_def)

lemma get_body_found:
  assumes "pendingSets s k = None"
      and "readClient_get ev s (CACHE_PREFIX @ k) = Inr (Some stored)"
      and "JSON_parse stored = Some data"
      and "js_field data ''timestamp'' = Some (JNum ts)"
      and "js_field data ''revalidate'' = Some (JNum rv)"
      and "js_field data ''value'' = Some (JStr b)"
  shows "fst (get_body ev k tags s) =
           (if now ev > ts + rv * 1000 then Returned None
            else Returned (Some \<lparr>r_value = Chunk (from_base64 b) Done,
                                  r_tags = js_field data ''tags'',
                                  r_stale = js_field data ''stale'',
                                  r_timestamp = Some (JNum ts),
                                  r_expire = js_field data ''expire'',
                                  r_revalidate = Some (JNum rv)\<rparr>))"
proof -
  have nonempty: "stored \<noteq> []" using assms(3) by (auto simp: JSON_parse_Nil)
  have notnull: "data \<noteq> JNull" using assms(4) by (auto simp: js_field_JNull)
  have rd: "readClient_get ev (ensureConnected ev s) (CACHE_PREFIX @ k) = Inr (Some stored)"
    using assms(2) by (simp add: readClient_get_ensureConnected)
  show ?thesis
    using assms(1,3,4,5,6) nonempty notnull rd
    by (simp add: get_body_def Let_def ensureConnected_fields past_revalidate_def js_number_def
        Buffer_from_base64_def)
qed

text \<open>
  C1 (amended). For a stored text that parses to a document with a number for
  \<^verbatim>\<open>timestamp\<close>, a number for \<^verbatim>\<open>revalidate\<close> and a string for \<^verbatim>\<open>value\<close>, and no
  write to the key in flight, \<^verbatim>\<open>get\<close> returns \<^verbatim>\<open>undefined\<close> exactly when
  \<^verbatim>\<open>now > timestamp + revalidate * 1000\<close>: the bound is the revalidate window, and
  \<^verbatim>\<open>expire\<close> plays no part. Otherwise it returns the entry with the decoded payload and
  the stored fields; \<^verbatim>\<open>stale\<close> is the stored member, not computed from the age.
\<close>

theorem get_misses_past_revalidate:
  assumes "pendingSets s k = None"
      and "readClient_get ev s (CACHE_PREFIX @ k) = Inr (Some stored)"
      and "JSON_parse stored = Some data"
      and "js_field data ''timestamp'' = Some (JNum ts)"
      and "js_field data ''revalidate'' = Some (JNum rv)"
      and "js_field data ''value'' = Some (JStr b)"
  shows "fst (get ev k tags s) =
           (if now ev > ts + rv * 1000 then Returned None
            else Returned (Some \<lparr>r_value = Chunk (from_base64 b) Done,
                                  r_tags = js_field data ''tags'',
                                  r_stale = js_field data ''stale'',
                                  r_timestamp = Some (JNum ts),
                                  r_expire = js_field data ''expire'',
                                  r_revalidate = Some (JNum rv)\<rparr>))"
proof (cases "now ev > ts + rv * 1000")
  case True
  with get_body_found [OF assms, of tags]
  have "fst (get_body ev k tags s) = Returned None" by simp
  then have "fst (get ev k tags s) = Returned None" by (rule get_result_of_body)
  with True show ?thesis by simp
next
  case False
  with get_body_found [OF assms, of tags]
  have "fst (get_body ev k tags s) =
          Returned (Some \<lparr>r_value = Chunk (from_base64 b) Done,
                            r_tags = js_field data ''tags'',
                            r_stale = js_field data ''stale'',
                            r_timestamp = Some (JNum ts),
                            r_expire = js_field data ''expire'',
                            r_revalidate = Some (JNum rv)\<rparr>)" by simp
  then have "fst (get ev k tags s) =
          Returned (Some \<lparr>r_value = Chunk (from_base64 b) Done,
                            r_tags = js_field data ''tags'',
                            r_stale = js_field data ''stale'',
                            r_timestamp = Some (JNum ts),
                            r_expire = js_field data ''expire'',
                            r_revalidate = Some (JNum rv)\<rparr>)" by (rule get_result_of_body)
  with False show ?thesis by simp
qed

text \<open>
  The entry \<open>wine\<close> (written at time 0, \<^verbatim>\<open>revalidate\<close> 1, \<^verbatim>\<open>expire\<close> 3600), stored by
  \<^verbatim>\<open>set\<close> at time 0 under the key \<^verbatim>\<open>w1\<close>.
\<close>

lemmas set_defs = set_op_unfold set_body_def withSpan_def ensureConnected_unfold init_def quiet_def
  pipeline_exec_def apply_cmds_def Let_def CACHE_PREFIX_def TAGS_PREFIX_def live_def

lemma wine_written:
  "redis (snd (set_op (quiet 0) ''w1'' (Resolves wine) (init []))) =
     [(''nextjs:cache:w1'', Str (serialize wine [0x61, 0xFF, 0x00]), Some 3600000),
      (''nextjs:tags:wines'', Members [''nextjs:cache:w1''], Some 3660000)]"
  "pendingSets (snd (set_op (quiet 0) ''w1'' (Resolves wine) (init []))) ''w1'' = None"
  by (simp_all add: set_defs wine_def)

lemma wine_document:
  "JSON_parse (serialize wine [0x61, 0xFF, 0x00]) = Some (document wine [0x61, 0xFF, 0x00])"
  "serialize wine [0x61, 0xFF, 0x00] \<noteq> []"
  "js_field (document wine [0x61, 0xFF, 0x00]) ''timestamp'' = Some (JNum 0)"
  "js_field (document wine [0x61, 0xFF, 0x00]) ''revalidate'' = Some (JNum 1)"
  "js_field (document wine [0x61, 0xFF, 0x00]) ''expire'' = Some (JNum 3600)"
  "js_field (document wine [0x61, 0xFF, 0x00]) ''stale'' = Some (JBool False)"
  "js_field (document wine [0x61, 0xFF, 0x00]) ''tags'' = Some (JArr [JStr ''wines''])"
  "js_field (document wine [0x61, 0xFF, 0x00]) ''value'' = Some (JStr (toString_base64 [0x61, 0xFF, 0x00]))"
proof -
  show "JSON_parse (serialize wine [0x61, 0xFF, 0x00]) = Some (document wine [0x61, 0xFF, 0x00])"
    by (simp add: serialize_def JSON_round_trip)
  show "serialize wine [0x61, 0xFF, 0x00] \<noteq> []"
    by (simp add: serialize_def JSON_stringify_not_empty)
qed (simp_all add: js_field_def document_def wine_def)

lemma document_not_null: "document e payload \<noteq> JNull"
  by (simp add: document_def)

lemma quiet_fields:
  "now (quiet t) = t" "store_time (quiet t) = t" "get_fails (quiet t) k = False"
  "smembers_fails (quiet t) k = False" "keys_fails (quiet t) = False"
  "exec_fails (quiet t) = None" "connect_ok (quiet t) = True"
  by (simp_all add: quiet_def)

lemma wine_read:
  "t < 3600000 \<Longrightarrow>
   readClient_get (quiet t) (snd (set_op (quiet 0) ''w1'' (Resolves wine) (init [])))
     (CACHE_PREFIX @ ''w1'') = Inr (Some (serialize wine [0x61, 0xFF, 0x00]))"
  by (simp add: wine_written readClient_get_def redis_get_def live_def quiet_fields CACHE_PREFIX_def)

text \<open>
  C1 as stated fails: at time 2000 the record is in the store and its age is far from
  \<^verbatim>\<open>expire * 1000\<close>, yet \<^verbatim>\<open>get\<close> returns \<^verbatim>\<open>undefined\<close>, since 2000 is past
  \<^verbatim>\<open>timestamp + revalidate * 1000\<close>.
\<close>

theorem get_misses_within_ttl:
  "redis_get 2000 (redis (snd (set_op (quiet 0) ''w1'' (Resolves wine) (init []))))
     ''nextjs:cache:w1'' = Inr (Some (serialize wine [0x61, 0xFF, 0x00])) \<and>
   2000 \<le> e_timestamp wine + e_expire wine * 1000 \<and>
   fst (get (quiet 2000) ''w1'' [''wines'']
         (snd (set_op (quiet 0) ''w1'' (Resolves wine) (init [])))) = Returned None"
proof -
  let ?s = "snd (set_op (quiet 0) ''w1'' (Resolves wine) (init []))"
  have r: "readClient_get (quiet 2000) (ensureConnected (quiet 2000) ?s) (CACHE_PREFIX @ ''w1'')
             = Inr (Some (serialize wine [0x61, 0xFF, 0x00]))"
    using wine_read [of 2000] by (simp add: readClient_get_ensureConnected)
  have "fst (get_body (quiet 2000) ''w1'' [''wines''] ?s) = Returned None"
    by (simp add: get_body_def Let_def r ensureConnected_fields wine_written(2) wine_document
        past_revalidate_def js_number_def quiet_fields document_not_null)
  then have "fst (get (quiet 2000) ''w1'' [''wines''] ?s) = Returned None"
    by (rule get_result_of_body)
  moreover have "redis_get 2000 (redis ?s) ''nextjs:cache:w1''
                   = Inr (Some (serialize wine [0x61, 0xFF, 0x00]))"
    by (simp add: wine_written redis_get_def live_def)
  moreover have "2000 \<le> e_timestamp wine + e_expire wine * 1000"
    by (simp add: wine_def)
  ultimately show ?thesis by simp
qed

text \<open>The witness: the same record read at time 1000 (returned) and at time 1001 (a miss).\<close>

theorem get_misses_past_revalidate_witness:
  "fst (get (quiet 1000) ''w1'' [''wines'']
         (snd (set_op (quiet 0) ''w1'' (Resolves wine) (init [])))) =
     Returned (Some \<lparr>r_value = Chunk [0x61, 0xFF, 0x00] Done,
                      r_tags = Some (JArr [JStr ''wines'']),
                      r_stale = Some (JBool False),
                      r_timestamp = Some (JNum 0),
                      r_expire = Some (JNum 3600),
                      r_revalidate = Some (JNum 1)\<rparr>) \<and>
   fst (get (quiet 1001) ''w1'' [''wines'']
         (snd (set_op (quiet 0) ''w1'' (Resolves wine) (init [])))) = Returned None"
proof -
  let ?s = "snd (set_op (quiet 0) ''w1'' (Resolves wine) (init []))"
  note hit = get_misses_past_revalidate [where s = ?s and k = "''w1''" and ev = "quiet 1000"
      and tags = "[''wines'']", OF wine_written(2) wine_read wine_document(1,3,4,8)]
  note miss = get_misses_past_revalidate [where s = ?s and k = "''w1''" and ev = "quiet 1001"
      and tags = "[''wines'']", OF wine_written(2) wine_read wine_document(1,3,4,8)]
  have "now (quiet 1000) = 1000" "now (quiet 1001) = 1001" by (simp_all add: quiet_fields)
  with hit miss show ?thesis
    by (simp add: wine_document base64_round_trip)
qed

subsection \<open>Write, then read\<close>

lemma apply_cmd_other_key:
  "(case c of SADD k' m \<Rightarrow> k' \<noteq> key | EXPIRE k' ttl \<Rightarrow> k' \<noteq> key | _ \<Rightarrow> False) \<Longrightarrow>
   map_of (apply_cmd t c st) key = map_of st key"
  by (cases c) (auto simp: update_conv' delete_conv split: option.splits rval.splits prod.splits)

lemma tag_cmds_keep_entry:
  "map_of (apply_cmds t
      (concat (map (\<lambda>tag. [SADD (TAGS_PREFIX @ tag) (CACHE_PREFIX @ k),
                              EXPIRE (TAGS_PREFIX @ tag) ttl]) tags)) st) (CACHE_PREFIX @ k)
   = map_of st (CACHE_PREFIX @ k)"
proof (induction tags arbitrary: st)
  case Nil
  then show ?case by (simp add: apply_cmds_def)
next
  case (Cons tag tags)
  have d: "TAGS_PREFIX @ tag \<noteq> CACHE_PREFIX @ k" by (rule prefixes_differ)
  have "map_of (apply_cmd t (EXPIRE (TAGS_PREFIX @ tag) ttl)
                 (apply_cmd t (SADD (TAGS_PREFIX @ tag) (CACHE_PREFIX @ k)) st)) (CACHE_PREFIX @ k)
        = map_of st (CACHE_PREFIX @ k)"
    using d by (simp add: apply_cmd_other_key del: apply_cmd.simps)
  then show ?case using Cons.IH by (simp add: apply_cmds_def del: apply_cmd.simps)
qed

lemma document_fields:
  "js_field (document e payload) ''value'' = Some (JStr (toString_base64 payload))"
  "js_field (document e payload) ''tags'' = Some (JArr (map JStr (e_tags e)))"
  "js_field (document e payload) ''stale'' = e_stale e"
  "js_field (document e payload) ''timestamp'' = Some (JNum (e_timestamp e))"
  "js_field (document e payload) ''expire'' = Some (JNum (e_expire e))"
  "js_field (document e payload) ''revalidate'' = Some (JNum (e_revalidate e))"
  by (simp_all add: js_field_def document_def split: option.splits)

lemma set_op_store:
  assumes "read_all (e_value e) [] = Inr chunks" and "exec_fails ev = None"
  shows "redis (snd (set_op ev k (Resolves e) s)) =
           apply_cmds (store_time ev)
             (SETEX (CACHE_PREFIX @ k) (e_expire e) (serialize e (concat chunks)) #
              concat (map (\<lambda>tag. [SADD (TAGS_PREFIX @ tag) (CACHE_PREFIX @ k),
                                   EXPIRE (TAGS_PREFIX @ tag) (e_expire e + 60)]) (e_tags e)))
             (redis s)"
    and "pendingSets (snd (set_op ev k (Resolves e) s)) k = None"
  using assms
  by (simp_all add: set_op_unfold set_body_def withSpan_def Let_def pipeline_exec_def
      ensureConnected_fields tag_cmds_eq)

text \<open>Every list of chunks is what some stream gives before it ends.\<close>

lemma read_all_append: "read_all (foldr Chunk chunks Done) acc = Inr (acc @ chunks)"
  by (induction chunks arbitrary: acc) simp_all

lemma read_all_chunks: "read_all (foldr Chunk chunks Done) [] = Inr chunks"
  by (simp add: read_all_append)

lemma set_op_entry:
  assumes "read_all (e_value e) [] = Inr chunks" and "exec_fails ev = None" and "0 < e_expire e"
  shows "map_of (redis (snd (set_op ev k (Resolves e) s))) (CACHE_PREFIX @ k)
          = Some (Str (serialize e (concat chunks)), Some (store_time ev + e_expire e * 1000))"
  using assms(3)
  by (simp add: set_op_store(1) [OF assms(1,2)] apply_cmds_def tag_cmds_keep_entry [unfolded apply_cmds_def]
        update_conv' del: apply_cmd.simps) (simp add: update_conv')

lemma get_body_none:
  assumes "pendingSets s k = None" and "readClient_get ev s (CACHE_PREFIX @ k) = Inr None"
  shows "fst (get_body ev k tags s) = Returned None"
  using assms by (simp add: get_body_def Let_def ensureConnected_fields readClient_get_ensureConnected)

text \<open>
  What \<^verbatim>\<open>get\<close> returns for a key \<^verbatim>\<open>set\<close> has just written: a miss when the read fails, when
  the store has expired the record or when the revalidate window is over, and otherwise
  the entry, its payload the concatenated chunks in one chunk.
\<close>

lemma get_after_write:
  assumes "read_all (e_value e) [] = Inr chunks" and "exec_fails ev = None" and "0 < e_expire e"
  shows "fst (get ev' k ts (snd (set_op ev k (Resolves e) s))) =
           (if get_fails ev' (CACHE_PREFIX @ k) \<or> store_time ev + e_expire e * 1000 \<le> store_time ev'
               \<or> now ev' > e_timestamp e + e_revalidate e * 1000
            then Returned None
            else Returned (Some \<lparr>r_value = Chunk (concat chunks) Done,
                            r_tags = Some (JArr (map JStr (e_tags e))),
                            r_stale = e_stale e,
                            r_timestamp = Some (JNum (e_timestamp e)),
                            r_expire = Some (JNum (e_expire e)),
                            r_revalidate = Some (JNum (e_revalidate e))\<rparr>))"
proof -
  let ?s = "snd (set_op ev k (Resolves e) s)"
  let ?text = "serialize e (concat chunks)"
  note st = set_op_entry [OF assms, of k s]
  note pend = set_op_store(2) [OF assms(1,2), of k s]
  consider (fails) "get_fails ev' (CACHE_PREFIX @ k)"
    | (expired) "\<not> get_fails ev' (CACHE_PREFIX @ k)" "store_time ev + e_expire e * 1000 \<le> store_time ev'"
    | (found) "\<not> get_fails ev' (CACHE_PREFIX @ k)" "store_time ev' < store_time ev + e_expire e * 1000"
    by fastforce
  then show ?thesis
  proof cases
    case fails
    with pend have "fst (get ev' k ts ?s) = Returned None" by (rule get_miss_on_failed_read)
    with fails show ?thesis by simp
  next
    case expired
    then have "readClient_get ev' ?s (CACHE_PREFIX @ k) = Inr None"
      using st by (simp add: readClient_get_def redis_get_def live_def)
    with pend have "fst (get_body ev' k ts ?s) = Returned None" by (rule get_body_none)
    then have "fst (get ev' k ts ?s) = Returned None" by (rule get_result_of_body)
    with expired show ?thesis by simp
  next
    case found
    then have r: "readClient_get ev' ?s (CACHE_PREFIX @ k) = Inr (Some ?text)"
      using st by (simp add: readClient_get_def redis_get_def live_def)
    have p: "JSON_parse ?text = Some (document e (concat chunks))"
      by (simp add: serialize_def JSON_round_trip)
    have "fst (get ev' k ts ?s) =
           (if now ev' > e_timestamp e + e_revalidate e * 1000 then Returned None
            else Returned (Some \<lparr>r_value = Chunk (from_base64 (toString_base64 (concat chunks))) Done,
                                  r_tags = js_field (document e (concat chunks)) ''tags'',
                                  r_stale = js_field (document e (concat chunks)) ''stale'',
                                  r_timestamp = Some (JNum (e_timestamp e)),
                                  r_expire = js_field (document e (concat chunks)) ''expire'',
                                  r_revalidate = Some (JNum (e_revalidate e))\<rparr>))"
      using get_body_found [OF pend r p document_fields(4,6,1), of ts]
        get_result_of_body [of ev' k ts ?s]
      by (simp split: if_splits)
    with found show ?thesis by (simp add: document_fields base64_round_trip)
  qed
qed

text \<open>
  C8. An entry whose stream gives the chunks \<open>chunks\<close> (any bytes) and ends is written by
  \<^verbatim>\<open>set\<close>, with a positive \<^verbatim>\<open>expire\<close> and a pipeline that is applied, and the key is then read
  by \<^verbatim>\<open>get\<close>. Every entry \<^verbatim>\<open>get\<close> returns carries exactly the concatenated chunks, in one
  chunk; and \<^verbatim>\<open>get\<close> does return an entry when its read of the store does not fail, the
  store has not expired the record and the read is within the revalidate window.
\<close>

theorem payload_round_trip:
  assumes "read_all (e_value e) [] = Inr chunks"
      and "exec_fails ev = None"
      and "0 < e_expire e"
  shows "(\<forall>h. fst (get ev' k ts (snd (set_op ev k (Resolves e) s))) = Returned (Some h) \<longrightarrow>
              r_value h = Chunk (concat chunks) Done) \<and>
         (\<not> get_fails ev' (CACHE_PREFIX @ k) \<and>
          store_time ev' < store_time ev + e_expire e * 1000 \<and>
          now ev' \<le> e_timestamp e + e_revalidate e * 1000 \<longrightarrow>
            (\<exists>h. fst (get ev' k ts (snd (set_op ev k (Resolves e) s))) = Returned (Some h) \<and>
                 r_value h = Chunk (concat chunks) Done))"
  using get_after_write [OF assms, of ev' k ts s] by (auto split: if_splits)

text \<open>The witness: a payload of two chunks with the bytes 0xFF and 0x00, read at time 1000.\<close>

theorem payload_round_trip_witness:
  "read_all (e_value wine) [] = Inr [[0x61, 0xFF], [0x00]] \<and>
   (\<exists>h. fst (get (quiet 1000) ''w1'' [''wines''] (snd (set_op (quiet 0) ''w1'' (Resolves wine) (init []))))
          = Returned (Some h) \<and>
        r_value h = Chunk [0x61, 0xFF, 0x00] Done)"
proof -
  have a: "read_all (e_value wine) [] = Inr [[0x61, 0xFF], [0x00]]" "0 < e_expire wine"
    "e_timestamp wine = 0" "e_revalidate wine = 1" "e_expire wine = 3600"
    by (simp_all add: wine_def)
  have q: "exec_fails (quiet 0) = None" "\<not> get_fails (quiet 1000) (CACHE_PREFIX @ ''w1'')"
    "store_time (quiet 1000) = 1000" "store_time (quiet 0) = 0" "now (quiet 1000) = 1000"
    by (simp_all add: quiet_def)
  from payload_round_trip [OF a(1) q(1) a(2), of "quiet 1000" "''w1''" "[''wines'']" "init []"] a q
  show ?thesis by simp
qed

subsection \<open>Reading while a write is in flight\<close>

text \<open>
  The gate of \<^verbatim>\<open>get\<close>: when a promise is registered for the key and is not resolved,
  the call is suspended on it and has not read the store.
\<close>

lemma get_waits_for_pending_write:
  assumes "pendingSets s k = Some p" and "p \<notin> resolved s"
  shows "get ev k tags s = (Awaiting p, ensureConnected ev s)"
  using assms by (simp add: get_def withSpan_def get_body_def Let_def ensureConnected_fields)

lemma one_writer_blocks_get:
  "fst (get (quiet 1) ''w1'' [''wines''] (snd (set_register ''w1'' (init [])))) = Awaiting 0"
  by (simp add: get_waits_for_pending_write set_register_def init_def Let_def)

lemma two_writers_state:
  "fst (set_register ''w1'' (init [])) = 0"
  "fst (set_register ''w1'' (snd (set_register ''w1'' (init [])))) = 1"
  "pendingSets (snd (set_register ''w1'' (snd (set_register ''w1'' (init []))))) ''w1'' = Some 1"
  "resolved two_writers = {0}"
  "pendingSets two_writers ''w1'' = None"
  "redis two_writers =
     [(''nextjs:cache:w1'', Str (serialize wine [0x61, 0xFF, 0x00]), Some 3600000),
      (''nextjs:tags:wines'', Members [''nextjs:cache:w1''], Some 3660000)]"
  by (simp_all add: two_writers_def set_register_def set_settle_def set_body_def withSpan_def
      ensureConnected_unfold init_def quiet_def pipeline_exec_def apply_cmds_def Let_def
      CACHE_PREFIX_def TAGS_PREFIX_def live_def wine_def)

text \<open>
  C9 fails on the code where two writes of one key overlap. The second \<^verbatim>\<open>set\<close>
  replaces the registration of the first; the \<^verbatim>\<open>finally\<close> of the first then deletes
  the key's registration, which by now is the second's. In the state \<open>two_writers\<close> the
  promise of the second write (number 1) is not resolved, that write is still in flight,
  and yet nothing is registered for the key: a \<^verbatim>\<open>get\<close> does not wait and returns what
  the first write stored.
\<close>

theorem get_does_not_wait_for_second_writer:
  "fst (set_register ''w1'' (snd (set_register ''w1'' (init [])))) = 1 \<and>
   pendingSets (snd (set_register ''w1'' (snd (set_register ''w1'' (init []))))) ''w1'' = Some 1 \<and>
   1 \<notin> resolved two_writers \<and>
   pendingSets two_writers ''w1'' = None \<and>
   fst (get (quiet 1) ''w1'' [''wines''] two_writers) =
     Returned (Some \<lparr>r_value = Chunk [0x61, 0xFF, 0x00] Done,
                      r_tags = Some (JArr [JStr ''wines'']),
                      r_stale = Some (JBool False),
                      r_timestamp = Some (JNum 0),
                      r_expire = Some (JNum 3600),
                      r_revalidate = Some (JNum 1)\<rparr>)"
proof -
  have r: "readClient_get (quiet 1) (ensureConnected (quiet 1) two_writers) (CACHE_PREFIX @ ''w1'')
             = Inr (Some (serialize wine [0x61, 0xFF, 0x00]))"
    by (simp add: readClient_get_def ensureConnected_fields redis_get_def live_def
        two_writers_state quiet_fields CACHE_PREFIX_def)
  have "fst (get_body (quiet 1) ''w1'' [''wines''] two_writers) =
     Returned (Some \<lparr>r_value = Chunk [0x61, 0xFF, 0x00] Done,
                      r_tags = Some (JArr [JStr ''wines'']),
                      r_stale = Some (JBool False),
                      r_timestamp = Some (JNum 0),
                      r_expire = Some (JNum 3600),
                      r_revalidate = Some (JNum 1)\<rparr>)"
    by (simp add: get_body_def Let_def r ensureConnected_fields two_writers_state wine_document
        past_revalidate_def js_number_def quiet_fields document_not_null Buffer_from_base64_def
        base64_round_trip)
  then have "fst (get (quiet 1) ''w1'' [''wines''] two_writers) =
     Returned (Some \<lparr>r_value = Chunk [0x61, 0xFF, 0x00] Done,
                      r_tags = Some (JArr [JStr ''wines'']),
                      r_stale = Some (JBool False),
                      r_timestamp = Some (JNum 0),
                      r_expire = Some (JNum 3600),
                      r_revalidate = Some (JNum 1)\<rparr>)"
    by (rule get_result_of_body)
  then show ?thesis by (simp add: two_writers_state)
qed

end
